theory Spec2Isabelle
  imports Main "HOL-Library.Multiset" "HOL-Library.Word"
begin

section \<open>The doubly-linked list of List.h over an explicit store\<close>

text \<open>
  The class \<open>List<T>\<close> owns a chain of heap nodes and mutates them through
  \<open>Node*\<close> pointers; \<open>headNode\<close>, \<open>tailNode\<close>, \<open>next\<close> and \<open>prev\<close> alias
  the same nodes. The model keeps that aliasing: nodes live in a store (a map from
  addresses to node records), a pointer is an \<open>addr option\<close> (\<open>None\<close> is
  \<open>nullptr\<close>), and every member function takes the store and the list object and
  returns both. \<open>new\<close> takes the next unused address; \<open>delete\<close> removes the
  node from the store. \<open>size_t\<close> is modelled by \<open>nat\<close>: every decrement in the
  source is guarded, and an increment cannot wrap before the address space is exhausted.
  The element type \<open>T\<close> is any linear order.
\<close>

subsection \<open>Data\<close>

type_synonym addr = nat

record 'a node =
  data :: 'a
  nextp :: "addr option"
  prevp :: "addr option"

record 'a store =
  heap :: "addr \<rightharpoonup> 'a node"
  fresh :: addr

record dlist =
  headNode :: "addr option"
  tailNode :: "addr option"
  listSize :: nat
  isSorted :: bool

text \<open>
  \<open>OutOfRange\<close>, \<open>Underflow\<close> and \<open>LogicError\<close> are the three exceptions the source
  throws (\<open>std::out_of_range\<close>, \<open>std::underflow_error\<close>, \<open>std::logic_error\<close>).
  \<open>InvalidPointer\<close> marks what C++ leaves undefined: reading or writing through a
  null or dangling pointer.
\<close>

datatype error = OutOfRange | Underflow | LogicError | InvalidPointer

definition bindE :: "error + 'a \<Rightarrow> ('a \<Rightarrow> error + 'b) \<Rightarrow> error + 'b" where
  "bindE m f = (case m of Inl e \<Rightarrow> Inl e | Inr x \<Rightarrow> f x)"

text \<open>Sequencing for member functions that contain a pointer loop.\<close>

definition bindO :: "(error + 'a) option \<Rightarrow> ('a \<Rightarrow> (error + 'b) option) \<Rightarrow> (error + 'b) option" where
  "bindO m f = (case m of None \<Rightarrow> None | Some (Inl e) \<Rightarrow> Some (Inl e) | Some (Inr x) \<Rightarrow> f x)"

text \<open>A result is a C++ exception when it is an error other than undefined behaviour.\<close>

definition throws :: "error + 'a \<Rightarrow> bool" where
  "throws r = (case r of Inl e \<Rightarrow> e \<noteq> InvalidPointer | Inr x \<Rightarrow> False)"

subsection \<open>Pointer primitives\<close>

text \<open>\<open>*p\<close> as an rvalue.\<close>

definition deref :: "'a store \<Rightarrow> addr option \<Rightarrow> error + 'a node" where
  "deref s p =
     (case p of None \<Rightarrow> Inl InvalidPointer
      | Some a \<Rightarrow> (case heap s a of None \<Rightarrow> Inl InvalidPointer | Some n \<Rightarrow> Inr n))"

text \<open>An assignment to a field through \<open>p\<close>: \<open>p->field = v\<close>.\<close>

definition modify :: "addr option \<Rightarrow> ('a node \<Rightarrow> 'a node) \<Rightarrow> 'a store \<Rightarrow> error + 'a store" where
  "modify p f s =
     (case p of None \<Rightarrow> Inl InvalidPointer
      | Some a \<Rightarrow> (case heap s a of None \<Rightarrow> Inl InvalidPointer
                  | Some n \<Rightarrow> Inr (s\<lparr>heap := (heap s)(a \<mapsto> f n)\<rparr>)))"

text \<open>\<open>new Node(value)\<close>: \<open>next\<close> and \<open>prev\<close> start as \<open>nullptr\<close>.\<close>

definition new_node :: "'a \<Rightarrow> 'a store \<Rightarrow> addr \<times> 'a store" where
  "new_node v s =
     (fresh s,
      s\<lparr>heap := (heap s)(fresh s \<mapsto> \<lparr>data = v, nextp = None, prevp = None\<rparr>),
        fresh := Suc (fresh s)\<rparr>)"

text \<open>\<open>delete p\<close>: nothing happens for \<open>nullptr\<close>.\<close>

definition delete_node :: "addr option \<Rightarrow> 'a store \<Rightarrow> error + 'a store" where
  "delete_node p s =
     (case p of None \<Rightarrow> Inr s
      | Some a \<Rightarrow> (case heap s a of None \<Rightarrow> Inl InvalidPointer
                  | Some n \<Rightarrow> Inr (s\<lparr>heap := (heap s)(a := None)\<rparr>)))"

subsection \<open>Construction and queries\<close>

text \<open>The default constructor \<open>List()\<close>.\<close>

definition List_new :: dlist where
  "List_new = \<lparr>headNode = None, tailNode = None, listSize = 0, isSorted = True\<rparr>"

definition sizeL :: "dlist \<Rightarrow> nat" where
  "sizeL l = listSize l"

definition emptyL :: "dlist \<Rightarrow> bool" where
  "emptyL l = (listSize l = 0)"

definition sortedL :: "dlist \<Rightarrow> bool" where
  "sortedL l = isSorted l"

subsection \<open>Insertion and removal at the ends\<close>

definition pushFront :: "'a::linorder \<Rightarrow> 'a store \<Rightarrow> dlist \<Rightarrow> error + 'a store \<times> dlist" where
  "pushFront v s l =
     (let (newNode, s1) = new_node v s in
      if emptyL l
      then Inr (s1, l\<lparr>headNode := Some newNode, tailNode := Some newNode,
                      listSize := listSize l + 1\<rparr>)
      else
        bindE (modify (Some newNode) (\<lambda>n. n\<lparr>nextp := headNode l\<rparr>) s1) (\<lambda>s2.
        bindE (modify (headNode l) (\<lambda>n. n\<lparr>prevp := Some newNode\<rparr>) s2) (\<lambda>s3.
        let l1 = l\<lparr>headNode := Some newNode\<rparr> in
        bindE (if isSorted l1 \<and> listSize l1 > 0
               then bindE (deref s3 (Some newNode)) (\<lambda>nn.
                    bindE (deref s3 (nextp nn)) (\<lambda>nx.
                    Inr (if v > data nx then l1\<lparr>isSorted := False\<rparr> else l1)))
               else Inr l1) (\<lambda>l2.
        Inr (s3, l2\<lparr>listSize := listSize l2 + 1\<rparr>)))))"

definition pushBack :: "'a::linorder \<Rightarrow> 'a store \<Rightarrow> dlist \<Rightarrow> error + 'a store \<times> dlist" where
  "pushBack v s l =
     (let (newNode, s1) = new_node v s in
      if emptyL l
      then Inr (s1, l\<lparr>headNode := Some newNode, tailNode := Some newNode,
                      listSize := listSize l + 1\<rparr>)
      else
        bindE (modify (tailNode l) (\<lambda>n. n\<lparr>nextp := Some newNode\<rparr>) s1) (\<lambda>s2.
        bindE (modify (Some newNode) (\<lambda>n. n\<lparr>prevp := tailNode l\<rparr>) s2) (\<lambda>s3.
        let l1 = l\<lparr>tailNode := Some newNode\<rparr> in
        bindE (if isSorted l1 \<and> listSize l1 > 0
               then bindE (deref s3 (Some newNode)) (\<lambda>nn.
                    bindE (deref s3 (prevp nn)) (\<lambda>np.
                    Inr (if v < data np then l1\<lparr>isSorted := False\<rparr> else l1)))
               else Inr l1) (\<lambda>l2.
        Inr (s3, l2\<lparr>listSize := listSize l2 + 1\<rparr>)))))"

definition popFront :: "'a store \<Rightarrow> dlist \<Rightarrow> error + 'a store \<times> dlist" where
  "popFront s l =
     (if emptyL l then Inl Underflow
      else
        let temp = headNode l in
        bindE (if listSize l = 1
               then Inr (s, l\<lparr>headNode := None, tailNode := None\<rparr>)
               else bindE (deref s (headNode l)) (\<lambda>hn.
                    let l1 = l\<lparr>headNode := nextp hn\<rparr> in
                    bindE (modify (headNode l1) (\<lambda>n. n\<lparr>prevp := None\<rparr>) s) (\<lambda>s1.
                    Inr (s1, l1)))) (\<lambda>(s2, l2).
        bindE (delete_node temp s2) (\<lambda>s3.
        Inr (s3, l2\<lparr>listSize := listSize l2 - 1\<rparr>))))"

definition popBack :: "'a store \<Rightarrow> dlist \<Rightarrow> error + 'a store \<times> dlist" where
  "popBack s l =
     (if emptyL l then Inl Underflow
      else
        let temp = tailNode l in
        bindE (if listSize l = 1
               then Inr (s, l\<lparr>headNode := None, tailNode := None\<rparr>)
               else bindE (deref s (tailNode l)) (\<lambda>tn.
                    let l1 = l\<lparr>tailNode := prevp tn\<rparr> in
                    bindE (modify (tailNode l1) (\<lambda>n. n\<lparr>nextp := None\<rparr>) s) (\<lambda>s1.
                    Inr (s1, l1)))) (\<lambda>(s2, l2).
        bindE (delete_node temp s2) (\<lambda>s3.
        Inr (s3, l2\<lparr>listSize := listSize l2 - 1\<rparr>))))"

subsection \<open>clear\<close>

text \<open>
  \<open>while (!empty()) popFront();\<close> Every iteration that returns has decremented
  \<open>listSize\<close>, so the loop is a total function.
\<close>

function clear_loop :: "'a store \<Rightarrow> dlist \<Rightarrow> error + 'a store \<times> dlist" where
  "clear_loop s l =
     (if \<not> emptyL l
      then (case popFront s l of Inl e \<Rightarrow> Inl e | Inr (s', l') \<Rightarrow> clear_loop s' l')
      else Inr (s, l))"
  by pat_completeness auto
termination
proof (relation "measure (\<lambda>(s, l). listSize l)")
  show "wf (measure (\<lambda>(s :: 'a store, l). listSize l))"
    by simp
next
  fix s :: "'a store" and l :: dlist and x2 s' l'
  assume "\<not> emptyL l" and "popFront s l = Inr x2" and "(s', l') = x2"
  then have "listSize l' = listSize l - 1 \<and> listSize l \<noteq> 0"
    by (auto simp: popFront_def emptyL_def bindE_def Let_def split: if_splits sum.splits)
  then show "((s', l'), (s, l)) \<in> measure (\<lambda>(s, l). listSize l)"
    by simp
qed

declare clear_loop.simps [simp del]

definition clear :: "'a store \<Rightarrow> dlist \<Rightarrow> error + 'a store \<times> dlist" where
  "clear s l = bindE (clear_loop s l) (\<lambda>(s', l'). Inr (s', l'\<lparr>isSorted := True\<rparr>))"

subsection \<open>Traversals: toVector and checkIntegrity\<close>

text \<open>
  A loop that follows \<open>next\<close> or \<open>prev\<close> pointers need not end on an arbitrary
  store (the chain may be cyclic), so these loops return an option: \<open>None\<close> is
  a run that never returns.
\<close>

partial_function (option) toVector_loop ::
    "'a store \<Rightarrow> addr option \<Rightarrow> 'a list \<Rightarrow> (error + 'a list) option" where
  "toVector_loop s current result =
     (case current of None \<Rightarrow> Some (Inr result)
      | Some a \<Rightarrow> (case heap s a of None \<Rightarrow> Some (Inl InvalidPointer)
                  | Some n \<Rightarrow> toVector_loop s (nextp n) (result @ [data n])))"

definition toVector :: "'a store \<Rightarrow> dlist \<Rightarrow> (error + 'a list) option" where
  "toVector s l = toVector_loop s (headNode l) []"

text \<open>
  The three loops of \<open>checkIntegrity\<close>. The first two either leave the function with
  \<open>false\<close> (\<open>Inl False\<close>) or finish with their count (\<open>Inr count\<close>).
\<close>

partial_function (option) checkIntegrity_forward ::
    "'a store \<Rightarrow> dlist \<Rightarrow> addr option \<Rightarrow> nat \<Rightarrow> (error + bool + nat) option" where
  "checkIntegrity_forward s l current forwardCount =
     (case current of None \<Rightarrow> Some (Inr (Inr forwardCount))
      | Some a \<Rightarrow> (case heap s a of None \<Rightarrow> Some (Inl InvalidPointer)
                  | Some n \<Rightarrow>
                      if nextp n = None \<and> current \<noteq> tailNode l then Some (Inr (Inl False))
                      else checkIntegrity_forward s l (nextp n) (forwardCount + 1)))"

partial_function (option) checkIntegrity_backward ::
    "'a store \<Rightarrow> dlist \<Rightarrow> addr option \<Rightarrow> nat \<Rightarrow> (error + bool + nat) option" where
  "checkIntegrity_backward s l current backwardCount =
     (case current of None \<Rightarrow> Some (Inr (Inr backwardCount))
      | Some a \<Rightarrow> (case heap s a of None \<Rightarrow> Some (Inl InvalidPointer)
                  | Some n \<Rightarrow>
                      if prevp n = None \<and> current \<noteq> headNode l then Some (Inr (Inl False))
                      else checkIntegrity_backward s l (prevp n) (backwardCount + 1)))"

partial_function (option) checkIntegrity_links ::
    "'a store \<Rightarrow> addr option \<Rightarrow> (error + bool) option" where
  "checkIntegrity_links s current =
     (case current of None \<Rightarrow> Some (Inr True)
      | Some a \<Rightarrow> (case heap s a of None \<Rightarrow> Some (Inl InvalidPointer)
          | Some n \<Rightarrow> (case nextp n of None \<Rightarrow> Some (Inr True)
              | Some b \<Rightarrow> (case heap s b of None \<Rightarrow> Some (Inl InvalidPointer)
                  | Some m \<Rightarrow>
                      if prevp m \<noteq> current then Some (Inr False)
                      else checkIntegrity_links s (nextp n)))))"

definition checkIntegrity :: "'a store \<Rightarrow> dlist \<Rightarrow> (error + bool) option" where
  "checkIntegrity s l =
     (if listSize l = 0 then Some (Inr (headNode l = None \<and> tailNode l = None))
      else if listSize l = 1 then
        (if headNode l = tailNode l \<and> headNode l \<noteq> None
         then (case deref s (headNode l) of Inl e \<Rightarrow> Some (Inl e)
               | Inr hn \<Rightarrow> Some (Inr (prevp hn = None \<and> nextp hn = None)))
         else Some (Inr False))
      else
        (case checkIntegrity_forward s l (headNode l) 0 of None \<Rightarrow> None
         | Some (Inl e) \<Rightarrow> Some (Inl e)
         | Some (Inr (Inl b)) \<Rightarrow> Some (Inr b)
         | Some (Inr (Inr forwardCount)) \<Rightarrow>
             if forwardCount \<noteq> listSize l then Some (Inr False)
             else
               (case checkIntegrity_backward s l (tailNode l) 0 of None \<Rightarrow> None
                | Some (Inl e) \<Rightarrow> Some (Inl e)
                | Some (Inr (Inl b)) \<Rightarrow> Some (Inr b)
                | Some (Inr (Inr backwardCount)) \<Rightarrow>
                    if backwardCount \<noteq> listSize l then Some (Inr False)
                    else checkIntegrity_links s (headNode l))))"

subsection \<open>The initializer-list constructor\<close>

text \<open>\<open>List(std::initializer_list<T> init)\<close>: one \<open>pushBack\<close> per item.\<close>

fun pushBack_all :: "'a::linorder list \<Rightarrow> 'a store \<Rightarrow> dlist \<Rightarrow> error + 'a store \<times> dlist" where
  "pushBack_all [] s l = Inr (s, l)"
| "pushBack_all (item # init) s l =
     (case pushBack item s l of Inl e \<Rightarrow> Inl e | Inr (s', l') \<Rightarrow> pushBack_all init s' l')"

definition List_init :: "'a::linorder list \<Rightarrow> 'a store \<Rightarrow> error + 'a store \<times> dlist" where
  "List_init init s = pushBack_all init s List_new"

subsection \<open>reverse\<close>

text \<open>
  One iteration of the loop reads \<open>current->prev\<close> into \<open>temp\<close>, stores the old
  \<open>next\<close> in \<open>prev\<close> and \<open>temp\<close> in \<open>next\<close>, and moves on to the new \<open>prev\<close>,
  which is the old \<open>next\<close>.
\<close>

partial_function (option) reverse_loop ::
    "'a store \<Rightarrow> addr option \<Rightarrow> addr option \<Rightarrow> (error + 'a store \<times> addr option) option" where
  "reverse_loop s current temp =
     (case current of None \<Rightarrow> Some (Inr (s, temp))
      | Some a \<Rightarrow> (case heap s a of None \<Rightarrow> Some (Inl InvalidPointer)
          | Some n \<Rightarrow>
              reverse_loop (s\<lparr>heap := (heap s)(a \<mapsto> n\<lparr>prevp := nextp n, nextp := prevp n\<rparr>)\<rparr>)
                (nextp n) (prevp n)))"

definition reverse :: "'a store \<Rightarrow> dlist \<Rightarrow> (error + 'a store \<times> dlist) option" where
  "reverse s l =
     (if listSize l \<le> 1 then Some (Inr (s, l))
      else
        (case reverse_loop s (headNode l) None of None \<Rightarrow> None
         | Some (Inl e) \<Rightarrow> Some (Inl e)
         | Some (Inr (s1, temp)) \<Rightarrow>
             (case (if temp \<noteq> None
                    then bindE (deref s1 temp) (\<lambda>tn. Inr (l\<lparr>headNode := prevp tn\<rparr>))
                    else Inr l) of
                Inl e \<Rightarrow> Some (Inl e)
              | Inr l1 \<Rightarrow>
                  Some (Inr (s1, l1\<lparr>headNode := tailNode l1, tailNode := headNode l1,
                                    isSorted := False\<rparr>)))))"

subsection \<open>operator==\<close>

partial_function (option) operator_eq_loop ::
    "'a store \<Rightarrow> addr option \<Rightarrow> addr option \<Rightarrow> (error + bool) option" where
  "operator_eq_loop s current1 current2 =
     (case current1 of None \<Rightarrow> Some (Inr (current2 = None))
      | Some a1 \<Rightarrow> (case current2 of None \<Rightarrow> Some (Inr False)
          | Some a2 \<Rightarrow> (case heap s a1 of None \<Rightarrow> Some (Inl InvalidPointer)
              | Some n1 \<Rightarrow> (case heap s a2 of None \<Rightarrow> Some (Inl InvalidPointer)
                  | Some n2 \<Rightarrow>
                      if data n1 \<noteq> data n2 then Some (Inr False)
                      else operator_eq_loop s (nextp n1) (nextp n2)))))"

definition operator_eq :: "'a store \<Rightarrow> dlist \<Rightarrow> dlist \<Rightarrow> (error + bool) option" where
  "operator_eq s l other =
     (if listSize l \<noteq> listSize other then Some (Inr False)
      else operator_eq_loop s (headNode l) (headNode other))"

subsection \<open>forEach and isSortedCheck\<close>

text \<open>
  The non-const \<open>forEach\<close> hands each element to \<open>func\<close> by reference \<open>T&\<close>; the
  model's \<open>func\<close> maps the element to what \<open>func\<close> leaves in it.
\<close>

partial_function (option) forEach_loop ::
    "('a \<Rightarrow> 'a) \<Rightarrow> 'a store \<Rightarrow> addr option \<Rightarrow> (error + 'a store) option" where
  "forEach_loop func s current =
     (case current of None \<Rightarrow> Some (Inr s)
      | Some a \<Rightarrow> (case heap s a of None \<Rightarrow> Some (Inl InvalidPointer)
          | Some n \<Rightarrow>
              forEach_loop func (s\<lparr>heap := (heap s)(a \<mapsto> n\<lparr>data := func (data n)\<rparr>)\<rparr>)
                (nextp n)))"

definition forEach :: "('a \<Rightarrow> 'a) \<Rightarrow> 'a store \<Rightarrow> dlist \<Rightarrow> (error + 'a store \<times> dlist) option" where
  "forEach func s l =
     (case forEach_loop func s (headNode l) of None \<Rightarrow> None
      | Some (Inl e) \<Rightarrow> Some (Inl e)
      | Some (Inr s') \<Rightarrow> Some (Inr (s', l)))"

partial_function (option) isSortedCheck_loop ::
    "'a::linorder store \<Rightarrow> addr option \<Rightarrow> (error + bool) option" where
  "isSortedCheck_loop s current =
     (case deref s current of Inl e \<Rightarrow> Some (Inl e)
      | Inr c \<Rightarrow> (case nextp c of None \<Rightarrow> Some (Inr True)
          | Some b \<Rightarrow> (case heap s b of None \<Rightarrow> Some (Inl InvalidPointer)
              | Some n \<Rightarrow>
                  if data c > data n then Some (Inr False)
                  else isSortedCheck_loop s (nextp c))))"

definition isSortedCheck :: "'a::linorder store \<Rightarrow> dlist \<Rightarrow> (error + bool) option" where
  "isSortedCheck s l =
     (if listSize l \<le> 1 then Some (Inr True) else isSortedCheck_loop s (headNode l))"

subsection \<open>Index resolution and binary search\<close>

text \<open>The counted \<open>for\<close> loops of \<open>getNodeAt\<close>: \<open>k\<close> steps along the field \<open>f\<close>.\<close>

fun walk :: "('a node \<Rightarrow> addr option) \<Rightarrow> 'a store \<Rightarrow> nat \<Rightarrow> addr option \<Rightarrow> error + addr option" where
  "walk f s 0 current = Inr current"
| "walk f s (Suc k) current = bindE (deref s current) (\<lambda>n. walk f s k (f n))"

definition getNodeAt :: "'a store \<Rightarrow> dlist \<Rightarrow> nat \<Rightarrow> error + addr option" where
  "getNodeAt s l index =
     (if index \<ge> listSize l then Inl OutOfRange
      else if index < listSize l div 2 then walk nextp s index (headNode l)
      else walk prevp s (listSize l - 1 - index) (tailNode l))"

definition at :: "'a store \<Rightarrow> dlist \<Rightarrow> nat \<Rightarrow> error + 'a" where
  "at s l index = bindE (getNodeAt s l index) (\<lambda>p. bindE (deref s p) (\<lambda>n. Inr (data n)))"

text \<open>
  The search loop. The distance \<open>right + 1 - left\<close> shrinks in every iteration that
  continues, whatever the store holds.
\<close>

function binarySearch_loop :: "'a::linorder store \<Rightarrow> dlist \<Rightarrow> 'a \<Rightarrow> nat \<Rightarrow> nat \<Rightarrow> error + bool" where
  "binarySearch_loop s l v left right =
     (if left \<le> right
      then (case at s l (left + (right - left) div 2) of Inl e \<Rightarrow> Inl e
            | Inr midValue \<Rightarrow>
                if midValue = v then Inr True
                else if midValue < v
                then binarySearch_loop s l v (left + (right - left) div 2 + 1) right
                else if left + (right - left) div 2 = 0 then Inr False
                else binarySearch_loop s l v left (left + (right - left) div 2 - 1))
      else Inr False)"
  by pat_completeness auto
termination
  by (relation "measure (\<lambda>(s, l, v, left, right). right + 1 - left)") auto

declare binarySearch_loop.simps [simp del]

definition binarySearch :: "'a::linorder store \<Rightarrow> dlist \<Rightarrow> 'a \<Rightarrow> error + bool" where
  "binarySearch s l v =
     (if \<not> isSorted l then Inl LogicError
      else if emptyL l then Inr False
      else binarySearch_loop s l v 0 (listSize l - 1))"

text \<open>\<open>static_cast<int>(mid)\<close>: the low 32 bits of the index, read as a signed number.\<close>

definition static_cast_int :: "nat \<Rightarrow> int" where
  "static_cast_int n = sint (word_of_nat n :: 32 word)"

function binarySearchIndex_loop :: "'a::linorder store \<Rightarrow> dlist \<Rightarrow> 'a \<Rightarrow> nat \<Rightarrow> nat \<Rightarrow> error + int" where
  "binarySearchIndex_loop s l v left right =
     (if left \<le> right
      then (case at s l (left + (right - left) div 2) of Inl e \<Rightarrow> Inl e
            | Inr midValue \<Rightarrow>
                if midValue = v then Inr (static_cast_int (left + (right - left) div 2))
                else if midValue < v
                then binarySearchIndex_loop s l v (left + (right - left) div 2 + 1) right
                else if left + (right - left) div 2 = 0 then Inr (- 1)
                else binarySearchIndex_loop s l v left (left + (right - left) div 2 - 1))
      else Inr (- 1))"
  by pat_completeness auto
termination
  by (relation "measure (\<lambda>(s, l, v, left, right). right + 1 - left)") auto

declare binarySearchIndex_loop.simps [simp del]

definition binarySearchIndex :: "'a::linorder store \<Rightarrow> dlist \<Rightarrow> 'a \<Rightarrow> error + int" where
  "binarySearchIndex s l v =
     (if \<not> isSorted l then Inl LogicError
      else if emptyL l then Inr (- 1)
      else binarySearchIndex_loop s l v 0 (listSize l - 1))"

subsection \<open>sort\<close>

text \<open>
  The private \<open>merge(Node*, Node*)\<close>: the node with the smaller element becomes the
  result, the left one on a tie, and its \<open>next\<close> is assigned the merge of the rest.
\<close>

partial_function (option) merge_nodes ::
    "'a::linorder store \<Rightarrow> addr option \<Rightarrow> addr option \<Rightarrow> (error + 'a store \<times> addr option) option" where
  "merge_nodes s left right =
     (case left of None \<Rightarrow> Some (Inr (s, right))
      | Some la \<Rightarrow> (case right of None \<Rightarrow> Some (Inr (s, left))
          | Some ra \<Rightarrow> (case heap s la of None \<Rightarrow> Some (Inl InvalidPointer)
              | Some ln \<Rightarrow> (case heap s ra of None \<Rightarrow> Some (Inl InvalidPointer)
                  | Some rn \<Rightarrow>
                      if data ln \<le> data rn
                      then Option.bind (merge_nodes s (nextp ln) right) (\<lambda>r.
                             case r of Inl e \<Rightarrow> Some (Inl e)
                             | Inr (s', m) \<Rightarrow>
                                 Some (bindE (modify left (\<lambda>n. n\<lparr>nextp := m\<rparr>) s') (\<lambda>s''.
                                       Inr (s'', left))))
                      else Option.bind (merge_nodes s left (nextp rn)) (\<lambda>r.
                             case r of Inl e \<Rightarrow> Some (Inl e)
                             | Inr (s', m) \<Rightarrow>
                                 Some (bindE (modify right (\<lambda>n. n\<lparr>nextp := m\<rparr>) s') (\<lambda>s''.
                                       Inr (s'', right))))))))"

text \<open>
  The slow/fast loop of \<open>mergeSort\<close>; it returns \<open>prev\<close> and \<open>slow\<close>.
\<close>

partial_function (option) mergeSort_split ::
    "'a store \<Rightarrow> addr option \<Rightarrow> addr option \<Rightarrow> addr option
      \<Rightarrow> (error + addr option \<times> addr option) option" where
  "mergeSort_split s slow fast prev =
     (case fast of None \<Rightarrow> Some (Inr (prev, slow))
      | Some fa \<Rightarrow> (case heap s fa of None \<Rightarrow> Some (Inl InvalidPointer)
          | Some fn \<Rightarrow> (case nextp fn of None \<Rightarrow> Some (Inr (prev, slow))
              | Some fb \<Rightarrow> (case deref s slow of Inl e \<Rightarrow> Some (Inl e)
                  | Inr sn \<Rightarrow> (case heap s fb of None \<Rightarrow> Some (Inl InvalidPointer)
                      | Some fm \<Rightarrow> mergeSort_split s (nextp sn) (nextp fm) slow)))))"

partial_function (option) mergeSort ::
    "'a::linorder store \<Rightarrow> addr option \<Rightarrow> (error + 'a store \<times> addr option) option" where
  "mergeSort s head =
     (case head of None \<Rightarrow> Some (Inr (s, head))
      | Some ha \<Rightarrow> (case heap s ha of None \<Rightarrow> Some (Inl InvalidPointer)
          | Some hn \<Rightarrow>
              if nextp hn = None then Some (Inr (s, head))
              else Option.bind (mergeSort_split s head head None) (\<lambda>r.
                case r of Inl e \<Rightarrow> Some (Inl e)
                | Inr (prev, slow) \<Rightarrow>
                    (case modify prev (\<lambda>n. n\<lparr>nextp := None\<rparr>) s of Inl e \<Rightarrow> Some (Inl e)
                     | Inr s1 \<Rightarrow>
                         Option.bind (mergeSort s1 head) (\<lambda>r.
                           case r of Inl e \<Rightarrow> Some (Inl e)
                           | Inr (s2, left) \<Rightarrow>
                               Option.bind (mergeSort s2 slow) (\<lambda>r.
                                 case r of Inl e \<Rightarrow> Some (Inl e)
                                 | Inr (s3, right) \<Rightarrow> merge_nodes s3 left right))))))"

text \<open>
  The loop of \<open>sort\<close> that rebuilds the \<open>prev\<close> links and finds the tail; it returns
  the store and \<open>tailNode\<close>.
\<close>

partial_function (option) sort_relink ::
    "'a store \<Rightarrow> addr option \<Rightarrow> addr option \<Rightarrow> (error + 'a store \<times> addr option) option" where
  "sort_relink s current tail =
     (case deref s current of Inl e \<Rightarrow> Some (Inl e)
      | Inr cn \<Rightarrow> (case nextp cn of None \<Rightarrow> Some (Inr (s, tail))
          | Some b \<Rightarrow> (case modify (nextp cn) (\<lambda>n. n\<lparr>prevp := current\<rparr>) s of
                Inl e \<Rightarrow> Some (Inl e)
              | Inr s1 \<Rightarrow> sort_relink s1 (nextp cn) (nextp cn))))"

definition sortL :: "'a::linorder store \<Rightarrow> dlist \<Rightarrow> (error + 'a store \<times> dlist) option" where
  "sortL s l =
     (if listSize l \<le> 1 then Some (Inr (s, l\<lparr>isSorted := True\<rparr>))
      else
        bindO (mergeSort s (headNode l)) (\<lambda>(s1, h).
        let l1 = l\<lparr>headNode := h, tailNode := h\<rparr> in
        bindO (Some (modify (headNode l1) (\<lambda>n. n\<lparr>prevp := None\<rparr>) s1)) (\<lambda>s2.
        bindO (sort_relink s2 (headNode l1) (tailNode l1)) (\<lambda>(s3, t).
        Some (Inr (s3, l1\<lparr>tailNode := t, isSorted := True\<rparr>))))))"

subsection \<open>sort with a comparator\<close>

text \<open>
  The range-for loop that writes the sorted buffer back: one assignment to
  \<open>current->data\<close> and one step along \<open>next\<close> per item.
\<close>

fun write_back :: "'a list \<Rightarrow> 'a store \<Rightarrow> addr option \<Rightarrow> error + 'a store" where
  "write_back [] s current = Inr s"
| "write_back (item # temp) s current =
     bindE (modify current (\<lambda>n. n\<lparr>data := item\<rparr>) s) (\<lambda>s1.
     bindE (deref s1 current) (\<lambda>n.
     write_back temp s1 (nextp n)))"

text \<open>
  \<open>std::sort\<close> belongs to the C++ standard library, not to this repository: it is the
  parameter \<open>std_sort\<close>, which maps the comparator and the buffer to the sorted buffer.
  The loop that fills the buffer is the loop of \<open>toVector\<close>.
\<close>

definition sort_cmp ::
    "(('a \<Rightarrow> 'a \<Rightarrow> bool) \<Rightarrow> 'a list \<Rightarrow> 'a list) \<Rightarrow> ('a \<Rightarrow> 'a \<Rightarrow> bool) \<Rightarrow> 'a store \<Rightarrow> dlist
      \<Rightarrow> (error + 'a store \<times> dlist) option" where
  "sort_cmp std_sort comparator s l =
     (if listSize l \<le> 1 then Some (Inr (s, l\<lparr>isSorted := False\<rparr>))
      else
        bindO (toVector_loop s (headNode l) []) (\<lambda>temp.
        bindO (Some (write_back (std_sort comparator temp) s (headNode l))) (\<lambda>s1.
        Some (Inr (s1, l\<lparr>isSorted := False\<rparr>)))))"

text \<open>An insertion sort by a comparator, to run \<open>sort_cmp\<close> on examples.\<close>

fun insert_by :: "('a \<Rightarrow> 'a \<Rightarrow> bool) \<Rightarrow> 'a \<Rightarrow> 'a list \<Rightarrow> 'a list" where
  "insert_by comparator x [] = [x]"
| "insert_by comparator x (y # ys) =
     (if comparator y x then y # insert_by comparator x ys else x # y # ys)"

fun sort_by :: "('a \<Rightarrow> 'a \<Rightarrow> bool) \<Rightarrow> 'a list \<Rightarrow> 'a list" where
  "sort_by comparator [] = []"
| "sort_by comparator (x # xs) = insert_by comparator x (sort_by comparator xs)"

subsection \<open>insertSorted\<close>

text \<open>The scan for the first node whose element is not less than the value.\<close>

partial_function (option) insertSorted_scan ::
    "'a::linorder store \<Rightarrow> 'a \<Rightarrow> addr option \<Rightarrow> (error + addr option) option" where
  "insertSorted_scan s v current =
     (case current of None \<Rightarrow> Some (Inr current)
      | Some a \<Rightarrow> (case heap s a of None \<Rightarrow> Some (Inl InvalidPointer)
          | Some n \<Rightarrow>
              if data n < v then insertSorted_scan s v (nextp n) else Some (Inr current)))"

definition insertSorted :: "'a::linorder \<Rightarrow> 'a store \<Rightarrow> dlist \<Rightarrow> (error + 'a store \<times> dlist) option" where
  "insertSorted v s l =
     bindO (if \<not> isSorted l then sortL s l else Some (Inr (s, l))) (\<lambda>(s0, l0).
     bindO (if emptyL l0 then Some (Inr True)
            else Some (bindE (deref s0 (headNode l0)) (\<lambda>hn. Inr (v \<le> data hn)))) (\<lambda>at_front.
     if at_front then Some (pushFront v s0 l0)
     else
       bindO (Some (bindE (deref s0 (tailNode l0)) (\<lambda>tn. Inr (v \<ge> data tn)))) (\<lambda>at_back.
       if at_back then Some (pushBack v s0 l0)
       else
         bindO (insertSorted_scan s0 v (headNode l0)) (\<lambda>current.
         let (newNode, s1) = new_node v s0 in
         bindO (Some (modify (Some newNode) (\<lambda>n. n\<lparr>nextp := current\<rparr>) s1)) (\<lambda>s2.
         bindO (Some (deref s2 current)) (\<lambda>cn.
         bindO (Some (modify (Some newNode) (\<lambda>n. n\<lparr>prevp := prevp cn\<rparr>) s2)) (\<lambda>s3.
         bindO (Some (deref s3 current)) (\<lambda>cn1.
         bindO (Some (modify (prevp cn1) (\<lambda>n. n\<lparr>nextp := Some newNode\<rparr>) s3)) (\<lambda>s4.
         bindO (Some (modify current (\<lambda>n. n\<lparr>prevp := Some newNode\<rparr>) s4)) (\<lambda>s5.
         Some (Inr (s5, l0\<lparr>listSize := listSize l0 + 1\<rparr>))))))))))))"

subsection \<open>merge of two lists\<close>

text \<open>
  The move assignment \<open>*this = std::move(other)\<close> between two different list
  objects: \<open>this\<close> is cleared and takes over the chain of \<open>other\<close>, which is left
  empty with its flag set. It returns the store, \<open>this\<close> and \<open>other\<close>.
\<close>

definition move_assign :: "'a store \<Rightarrow> dlist \<Rightarrow> dlist \<Rightarrow> error + 'a store \<times> dlist \<times> dlist" where
  "move_assign s l other =
     bindE (clear s l) (\<lambda>(s1, l1).
     Inr (s1,
          l1\<lparr>headNode := headNode other, tailNode := tailNode other,
             listSize := listSize other, isSorted := isSorted other\<rparr>,
          other\<lparr>headNode := None, tailNode := None, listSize := 0, isSorted := True\<rparr>))"

text \<open>The first loop of \<open>merge\<close>, which runs while both chains have a node left.\<close>

partial_function (option) merge_loop ::
    "'a::linorder store \<Rightarrow> dlist \<Rightarrow> addr option \<Rightarrow> addr option
      \<Rightarrow> (error + 'a store \<times> dlist \<times> addr option \<times> addr option) option" where
  "merge_loop s result current1 current2 =
     (case current1 of None \<Rightarrow> Some (Inr (s, result, current1, current2))
      | Some a1 \<Rightarrow> (case current2 of None \<Rightarrow> Some (Inr (s, result, current1, current2))
          | Some a2 \<Rightarrow> (case heap s a1 of None \<Rightarrow> Some (Inl InvalidPointer)
              | Some n1 \<Rightarrow> (case heap s a2 of None \<Rightarrow> Some (Inl InvalidPointer)
                  | Some n2 \<Rightarrow>
                      if data n1 \<le> data n2
                      then (case pushBack (data n1) s result of Inl e \<Rightarrow> Some (Inl e)
                            | Inr (s', result') \<Rightarrow>
                                (case deref s' current1 of Inl e \<Rightarrow> Some (Inl e)
                                 | Inr m1 \<Rightarrow> merge_loop s' result' (nextp m1) current2))
                      else (case pushBack (data n2) s result of Inl e \<Rightarrow> Some (Inl e)
                            | Inr (s', result') \<Rightarrow>
                                (case deref s' current2 of Inl e \<Rightarrow> Some (Inl e)
                                 | Inr m2 \<Rightarrow> merge_loop s' result' current1 (nextp m2)))))))"

text \<open>The second and the third loop, which copy what is left of one chain.\<close>

partial_function (option) merge_rest ::
    "'a::linorder store \<Rightarrow> dlist \<Rightarrow> addr option \<Rightarrow> (error + 'a store \<times> dlist) option" where
  "merge_rest s result current =
     (case current of None \<Rightarrow> Some (Inr (s, result))
      | Some a \<Rightarrow> (case heap s a of None \<Rightarrow> Some (Inl InvalidPointer)
          | Some n \<Rightarrow> (case pushBack (data n) s result of Inl e \<Rightarrow> Some (Inl e)
              | Inr (s', result') \<Rightarrow>
                  (case deref s' current of Inl e \<Rightarrow> Some (Inl e)
                   | Inr m \<Rightarrow> merge_rest s' result' (nextp m)))))"

text \<open>
  \<open>merge(List& other)\<close> for two different list objects; it returns the store, \<open>this\<close>
  and \<open>other\<close>. The local \<open>result\<close> is destroyed on return, after \<open>other.clear()\<close>:
  its destructor calls \<open>clear\<close>.
\<close>

definition mergeL :: "'a::linorder store \<Rightarrow> dlist \<Rightarrow> dlist \<Rightarrow> (error + 'a store \<times> dlist \<times> dlist) option" where
  "mergeL s l other =
     bindO (if \<not> isSorted l then sortL s l else Some (Inr (s, l))) (\<lambda>(s1, l1).
     bindO (if \<not> isSorted other then sortL s1 other else Some (Inr (s1, other))) (\<lambda>(s2, other1).
     bindO (merge_loop s2 List_new (headNode l1) (headNode other1)) (\<lambda>(s3, result, current1, current2).
     bindO (merge_rest s3 result current1) (\<lambda>(s4, result1).
     bindO (merge_rest s4 result1 current2) (\<lambda>(s5, result2).
     bindO (Some (move_assign s5 l1 result2)) (\<lambda>(s6, l2, result3).
     bindO (Some (clear s6 other1)) (\<lambda>(s7, other2).
     bindO (Some (clear s7 result3)) (\<lambda>(s8, result4).
     Some (Inr (s8, l2, other2))))))))))"

subsection \<open>Sequences of end operations\<close>

datatype 'a end_op = PushFront 'a | PushBack 'a | PopFront | PopBack

fun apply_op :: "'a::linorder end_op \<Rightarrow> 'a store \<Rightarrow> dlist \<Rightarrow> error + 'a store \<times> dlist" where
  "apply_op (PushFront v) s l = pushFront v s l"
| "apply_op (PushBack v) s l = pushBack v s l"
| "apply_op PopFront s l = popFront s l"
| "apply_op PopBack s l = popBack s l"

fun run_ops :: "'a::linorder end_op list \<Rightarrow> 'a store \<Rightarrow> dlist \<Rightarrow> error + 'a store \<times> dlist" where
  "run_ops [] s l = Inr (s, l)"
| "run_ops (x # xs) s l =
     (case apply_op x s l of Inl e \<Rightarrow> Inl e | Inr (s', l') \<Rightarrow> run_ops xs s' l')"

subsection \<open>Example states\<close>

text \<open>The store before anything is allocated.\<close>

definition empty_store :: "int store" where
  "empty_store = \<lparr>heap = Map.empty, fresh = 0\<rparr>"

text \<open>The list \<open>[2, 1]\<close> as \<open>pushBack(2); pushBack(1)\<close> leaves it: the flag is cleared.\<close>

definition store_21 :: "int store" where
  "store_21 =
     \<lparr>heap = [0 \<mapsto> \<lparr>data = 2, nextp = Some 1, prevp = None\<rparr>,
              1 \<mapsto> \<lparr>data = 1, nextp = None, prevp = Some 0\<rparr>],
      fresh = 2\<rparr>"

definition list_21 :: dlist where
  "list_21 = \<lparr>headNode = Some 0, tailNode = Some 1, listSize = 2, isSorted = False\<rparr>"

text \<open>The list \<open>[1, 2]\<close> as \<open>pushBack(1); pushBack(2)\<close> leaves it: the flag is still set.\<close>

definition store_12 :: "int store" where
  "store_12 =
     \<lparr>heap = [0 \<mapsto> \<lparr>data = 1, nextp = Some 1, prevp = None\<rparr>,
              1 \<mapsto> \<lparr>data = 2, nextp = None, prevp = Some 0\<rparr>],
      fresh = 2\<rparr>"

definition list_12 :: dlist where
  "list_12 = \<lparr>headNode = Some 0, tailNode = Some 1, listSize = 2, isSorted = True\<rparr>"

text \<open>The sorted list \<open>[1, 3, 3, 5, 9]\<close>.\<close>

definition store_13359 :: "int store" where
  "store_13359 =
     \<lparr>heap = [0 \<mapsto> \<lparr>data = 1, nextp = Some 1, prevp = None\<rparr>,
              1 \<mapsto> \<lparr>data = 3, nextp = Some 2, prevp = Some 0\<rparr>,
              2 \<mapsto> \<lparr>data = 3, nextp = Some 3, prevp = Some 1\<rparr>,
              3 \<mapsto> \<lparr>data = 5, nextp = Some 4, prevp = Some 2\<rparr>,
              4 \<mapsto> \<lparr>data = 9, nextp = None, prevp = Some 3\<rparr>],
      fresh = 5\<rparr>"

definition list_13359 :: dlist where
  "list_13359 = \<lparr>headNode = Some 0, tailNode = Some 4, listSize = 5, isSorted = True\<rparr>"

text \<open>The list \<open>[2, 1, 2]\<close>, with the flag cleared.\<close>

definition store_212 :: "int store" where
  "store_212 =
     \<lparr>heap = [0 \<mapsto> \<lparr>data = 2, nextp = Some 1, prevp = None\<rparr>,
              1 \<mapsto> \<lparr>data = 1, nextp = Some 2, prevp = Some 0\<rparr>,
              2 \<mapsto> \<lparr>data = 2, nextp = None, prevp = Some 1\<rparr>],
      fresh = 3\<rparr>"

definition list_212 :: dlist where
  "list_212 = \<lparr>headNode = Some 0, tailNode = Some 2, listSize = 3, isSorted = False\<rparr>"

text \<open>The list \<open>[2, 4, 6]\<close>.\<close>

definition store_246 :: "int store" where
  "store_246 =
     \<lparr>heap = [0 \<mapsto> \<lparr>data = 2, nextp = Some 1, prevp = None\<rparr>,
              1 \<mapsto> \<lparr>data = 4, nextp = Some 2, prevp = Some 0\<rparr>,
              2 \<mapsto> \<lparr>data = 6, nextp = None, prevp = Some 1\<rparr>],
      fresh = 3\<rparr>"

definition list_246 :: dlist where
  "list_246 = \<lparr>headNode = Some 0, tailNode = Some 2, listSize = 3, isSorted = True\<rparr>"

text \<open>
  Two lists in one store: \<open>[1, 3]\<close> with its flag set, and \<open>[4, 2]\<close> with its flag
  cleared.
\<close>

definition store_13_42 :: "int store" where
  "store_13_42 =
     \<lparr>heap = [0 \<mapsto> \<lparr>data = 1, nextp = Some 1, prevp = None\<rparr>,
              1 \<mapsto> \<lparr>data = 3, nextp = None, prevp = Some 0\<rparr>,
              2 \<mapsto> \<lparr>data = 4, nextp = Some 3, prevp = None\<rparr>,
              3 \<mapsto> \<lparr>data = 2, nextp = None, prevp = Some 2\<rparr>],
      fresh = 4\<rparr>"

definition list_13 :: dlist where
  "list_13 = \<lparr>headNode = Some 0, tailNode = Some 1, listSize = 2, isSorted = True\<rparr>"

definition list_42 :: dlist where
  "list_42 = \<lparr>headNode = Some 2, tailNode = Some 3, listSize = 2, isSorted = False\<rparr>"

subsection \<open>Test programs\<close>

text \<open>
  \<open>List<int> a(init), b(init); a.reverse(); a.reverse(); return a == b;\<close>
\<close>

definition reverse_twice_test :: "int list \<Rightarrow> (error + bool) option" where
  "reverse_twice_test init =
     bindO (Some (List_init init empty_store)) (\<lambda>(s1, a).
     bindO (Some (List_init init s1)) (\<lambda>(s2, b).
     bindO (reverse s2 a) (\<lambda>(s3, a1).
     bindO (reverse s3 a1) (\<lambda>(s4, a2).
     operator_eq s4 a2 b))))"

text \<open>
  \<open>List<int> a(init); a.reverse(); a.reverse(); return a.toVector();\<close>
\<close>

definition reverse_twice_vector :: "int list \<Rightarrow> (error + int list) option" where
  "reverse_twice_vector init =
     bindO (Some (List_init init empty_store)) (\<lambda>(s1, a).
     bindO (reverse s1 a) (\<lambda>(s2, a1).
     bindO (reverse s2 a1) (\<lambda>(s3, a2).
     toVector s3 a2)))"

text \<open>
  \<open>List<int> a(init); a.forEach(func); return {a.sorted(), a.isSortedCheck()};\<close>
\<close>

definition forEach_test :: "(int \<Rightarrow> int) \<Rightarrow> int list \<Rightarrow> (error + bool \<times> bool) option" where
  "forEach_test func init =
     bindO (Some (List_init init empty_store)) (\<lambda>(s1, a).
     bindO (forEach func s1 a) (\<lambda>(s2, a1).
     bindO (isSortedCheck s2 a1) (\<lambda>b.
     Some (Inr (sortedL a1, b)))))"

text \<open>
  \<open>List<int> a(init); return {a.binarySearch(v), a.binarySearchIndex(v)};\<close>
\<close>

definition binarySearch_test :: "int list \<Rightarrow> int \<Rightarrow> error + bool \<times> int" where
  "binarySearch_test init v =
     bindE (List_init init empty_store) (\<lambda>(s1, a).
     bindE (binarySearch s1 a v) (\<lambda>b.
     bindE (binarySearchIndex s1 a v) (\<lambda>i.
     Inr (b, i))))"

text \<open>
  \<open>List<int> a(init); a.sort(); return {a.toVector(), a.sorted(), a.checkIntegrity()};\<close>
\<close>

definition sort_test :: "int list \<Rightarrow> (error + int list \<times> bool \<times> bool) option" where
  "sort_test init =
     bindO (Some (List_init init empty_store)) (\<lambda>(s1, a).
     bindO (sortL s1 a) (\<lambda>(s2, a1).
     bindO (toVector s2 a1) (\<lambda>xs.
     bindO (checkIntegrity s2 a1) (\<lambda>b.
     Some (Inr (xs, sortedL a1, b))))))"

text \<open>
  \<open>List<int> a(init); a.insertSorted(v);
  return {a.toVector(), a.sorted(), a.checkIntegrity()};\<close>
\<close>

definition insertSorted_test :: "int list \<Rightarrow> int \<Rightarrow> (error + int list \<times> bool \<times> bool) option" where
  "insertSorted_test init v =
     bindO (Some (List_init init empty_store)) (\<lambda>(s1, a).
     bindO (insertSorted v s1 a) (\<lambda>(s2, a1).
     bindO (toVector s2 a1) (\<lambda>xs.
     bindO (checkIntegrity s2 a1) (\<lambda>b.
     Some (Inr (xs, sortedL a1, b))))))"

text \<open>
  \<open>List<int> a(init1), b(init2); a.merge(b);
  return {a.toVector(), a.size(), a.isSortedCheck(), b.size()};\<close>
\<close>

definition merge_test :: "int list \<Rightarrow> int list \<Rightarrow> (error + int list \<times> nat \<times> bool \<times> nat) option" where
  "merge_test init1 init2 =
     bindO (Some (List_init init1 empty_store)) (\<lambda>(s1, a).
     bindO (Some (List_init init2 s1)) (\<lambda>(s2, b).
     bindO (mergeL s2 a b) (\<lambda>(s3, a1, b1).
     bindO (toVector s3 a1) (\<lambda>xs.
     bindO (isSortedCheck s3 a1) (\<lambda>c.
     Some (Inr (xs, sizeL a1, c, sizeL b1)))))))"

text \<open>
  \<open>List<int> a(init); a.forEach(func); a.insertSorted(v);
  return {a.toVector(), a.sorted(), a.isSortedCheck()};\<close>
\<close>

definition forEach_insertSorted_test ::
    "(int \<Rightarrow> int) \<Rightarrow> int list \<Rightarrow> int \<Rightarrow> (error + int list \<times> bool \<times> bool) option" where
  "forEach_insertSorted_test func init v =
     bindO (Some (List_init init empty_store)) (\<lambda>(s1, a).
     bindO (forEach func s1 a) (\<lambda>(s2, a1).
     bindO (insertSorted v s2 a1) (\<lambda>(s3, a2).
     bindO (toVector s3 a2) (\<lambda>xs.
     bindO (isSortedCheck s3 a2) (\<lambda>c.
     Some (Inr (xs, sortedL a2, c)))))))"

text \<open>
  \<open>List<int> a(init1), b(init2); a.forEach(func); a.merge(b);
  return {a.toVector(), a.size(), a.isSortedCheck(), b.size()};\<close>
\<close>

definition forEach_merge_test ::
    "(int \<Rightarrow> int) \<Rightarrow> int list \<Rightarrow> int list
      \<Rightarrow> (error + int list \<times> nat \<times> bool \<times> nat) option" where
  "forEach_merge_test func init1 init2 =
     bindO (Some (List_init init1 empty_store)) (\<lambda>(s1, a).
     bindO (Some (List_init init2 s1)) (\<lambda>(s2, b).
     bindO (forEach func s2 a) (\<lambda>(s3, a1).
     bindO (mergeL s3 a1 b) (\<lambda>(s4, a2, b1).
     bindO (toVector s4 a2) (\<lambda>xs.
     bindO (isSortedCheck s4 a2) (\<lambda>c.
     Some (Inr (xs, sizeL a2, c, sizeL b1))))))))"

subsection \<open>Well-formed lists\<close>

text \<open>
  \<open>path f h p as q\<close>: following the pointer field \<open>f\<close> from \<open>p\<close> visits exactly the
  allocated nodes \<open>as\<close>, in this order, and arrives at \<open>q\<close>.
\<close>

fun path :: "('a node \<Rightarrow> addr option) \<Rightarrow> (addr \<rightharpoonup> 'a node) \<Rightarrow> addr option \<Rightarrow> addr list
    \<Rightarrow> addr option \<Rightarrow> bool" where
  "path f h p [] q = (p = q)"
| "path f h p (a # as) q =
     (p = Some a \<and> (case h a of None \<Rightarrow> False | Some n \<Rightarrow> path f h (f n) as q))"

text \<open>
  The forward half of the data-model invariant: the \<open>next\<close> chain from \<open>headNode\<close>
  runs through the distinct nodes \<open>as\<close> to \<open>nullptr\<close>, and \<open>listSize\<close> counts them.
\<close>

definition fwd_list :: "'a store \<Rightarrow> dlist \<Rightarrow> addr list \<Rightarrow> bool" where
  "fwd_list s l as =
     (distinct as \<and> list_all (\<lambda>a. a < fresh s) as \<and> listSize l = length as \<and>
      path nextp (heap s) (headNode l) as None)"

text \<open>
  The whole invariant adds the backward half: the \<open>prev\<close> chain from \<open>tailNode\<close> runs
  through the same nodes in the opposite order.
\<close>

definition wf_list :: "'a store \<Rightarrow> dlist \<Rightarrow> addr list \<Rightarrow> bool" where
  "wf_list s l as = (fwd_list s l as \<and> path prevp (heap s) (tailNode l) (rev as) None)"

text \<open>The element stored in the node at an address, and the elements of a chain.\<close>

definition val :: "'a store \<Rightarrow> addr \<Rightarrow> 'a" where
  "val s a = data (the (heap s a))"

definition elems :: "'a store \<Rightarrow> addr list \<Rightarrow> 'a list" where
  "elems s as = map (val s) as"

text \<open>
  The merge sort of \<open>mergeSort\<close> and \<open>merge\<close> on the list of node addresses, ordered
  by the element \<open>k a\<close> stored at each address.
\<close>

fun merge_f :: "(addr \<Rightarrow> 'a::linorder) \<Rightarrow> addr list \<Rightarrow> addr list \<Rightarrow> addr list" where
  "merge_f k [] ys = ys"
| "merge_f k xs [] = xs"
| "merge_f k (x # xs) (y # ys) =
     (if k x \<le> k y then x # merge_f k xs (y # ys) else y # merge_f k (x # xs) ys)"

function msort_f :: "(addr \<Rightarrow> 'a::linorder) \<Rightarrow> addr list \<Rightarrow> addr list" where
  "msort_f k as =
     (if length as \<le> 1 then as
      else merge_f k (msort_f k (take (length as div 2) as))
                     (msort_f k (drop (length as div 2) as)))"
  by pat_completeness auto
termination
  by (relation "measure (\<lambda>(k, as). length as)") auto

declare msort_f.simps [simp del]

text \<open>
  \<open>links_changed A s s'\<close>: from \<open>s\<close> to \<open>s'\<close> nothing was allocated or deleted, no
  element changed, and only nodes in \<open>A\<close> have different links.
\<close>

definition links_changed :: "addr set \<Rightarrow> 'a store \<Rightarrow> 'a store \<Rightarrow> bool" where
  "links_changed A s s' =
     (fresh s' = fresh s \<and> val s' = val s \<and>
      (\<forall>a. (heap s' a = None) = (heap s a = None)) \<and>
      (\<forall>a. a \<notin> A \<longrightarrow> heap s' a = heap s a))"

text \<open>The node at index \<open>j\<close> of a chain, \<open>nullptr\<close> past its end.\<close>

definition ptr_at :: "addr list \<Rightarrow> nat \<Rightarrow> addr option" where
  "ptr_at as j = (if j < length as then Some (as ! j) else None)"

text \<open>
  \<open>builds s rs s' rs'\<close>: from \<open>s\<close> to \<open>s'\<close> a list with the nodes \<open>rs\<close> has become
  one with the nodes \<open>rs'\<close> by adding newly allocated nodes; every other node that
  was allocated in \<open>s\<close> is untouched.
\<close>

definition builds :: "'a store \<Rightarrow> addr list \<Rightarrow> 'a store \<Rightarrow> addr list \<Rightarrow> bool" where
  "builds s rs s' rs' =
     (fresh s \<le> fresh s' \<and>
      (\<forall>a. a < fresh s \<and> a \<notin> set rs \<longrightarrow> heap s' a = heap s a) \<and>
      (\<forall>a\<in>set rs'. a \<in> set rs \<or> fresh s \<le> a))"

text \<open>The store after the loop of \<open>reverse\<close> has exchanged the links of the nodes \<open>as\<close>.\<close>

definition swap_links :: "(addr \<rightharpoonup> 'a node) \<Rightarrow> addr list \<Rightarrow> (addr \<rightharpoonup> 'a node)" where
  "swap_links h as =
     (\<lambda>a. if a \<in> set as then map_option (\<lambda>n. n\<lparr>prevp := nextp n, nextp := prevp n\<rparr>) (h a)
          else h a)"

section \<open>Verification\<close>

subsection \<open>Paths and the end operations\<close>

lemma bindE_simps [simp]: "bindE (Inl e) f = Inl e" "bindE (Inr x) f = f x"
  by (simp_all add: bindE_def)

lemma path_append:
  "path f h p (as @ bs) q \<longleftrightarrow> (\<exists>r. path f h p as r \<and> path f h r bs q)"
  by (induction as arbitrary: p) (auto split: option.splits)

lemma path_snoc:
  "path f h p (as @ [a]) q \<longleftrightarrow> path f h p as (Some a) \<and> (\<exists>n. h a = Some n \<and> f n = q)"
  by (auto simp: path_append split: option.splits)

lemma path_upd_other:
  "a \<notin> set as \<Longrightarrow> path f (h(a := x)) p as q = path f h p as q"
  by (induction as arbitrary: p) (auto split: option.splits)

lemma path_upd_field:
  "h a = Some n \<Longrightarrow> f n' = f n \<Longrightarrow> path f (h(a \<mapsto> n')) p as q = path f h p as q"
  by (induction as arbitrary: p) (auto split: option.splits)

lemma path_alloc: "path f h p as q \<Longrightarrow> a \<in> set as \<Longrightarrow> \<exists>n. h a = Some n"
  by (induction as arbitrary: p) (auto split: option.splits)

lemma pushFront_wf:
  assumes "wf_list s l as"
  shows "\<exists>s' l'. pushFront v s l = Inr (s', l') \<and> wf_list s' l' (fresh s # as) \<and>
     fresh s' = Suc (fresh s) \<and> val s' (fresh s) = v \<and>
     (\<forall>a. a \<noteq> fresh s \<longrightarrow> val s' a = val s a) \<and>
     (\<forall>a. a \<noteq> fresh s \<and> a \<notin> set as \<longrightarrow> heap s' a = heap s a) \<and>
     isSorted l' = (isSorted l \<and> (as = [] \<or> v \<le> val s (hd as)))"
proof (cases as)
  case Nil
  with assms show ?thesis
    by (auto simp: wf_list_def fwd_list_def pushFront_def new_node_def emptyL_def val_def)
next
  case (Cons b bs)
  with assms obtain n where n: "heap s b = Some n" "headNode l = Some b" "b < fresh s"
    by (auto simp: wf_list_def fwd_list_def split: option.splits)
  from assms Cons have nf: "fresh s \<notin> set as"
    by (auto simp: wf_list_def fwd_list_def list_all_iff)
  show ?thesis using assms Cons n nf
    apply (simp add: pushFront_def new_node_def emptyL_def modify_def deref_def Let_def wf_list_def fwd_list_def val_def)
    apply (auto simp: path_upd_other path_upd_field path_append list_all_iff split: option.splits)
    done
qed

lemma pushBack_wf:
  assumes "wf_list s l as"
  shows "\<exists>s' l'. pushBack v s l = Inr (s', l') \<and> wf_list s' l' (as @ [fresh s]) \<and>
     fresh s' = Suc (fresh s) \<and> val s' (fresh s) = v \<and>
     (\<forall>a. a \<noteq> fresh s \<longrightarrow> val s' a = val s a) \<and>
     (\<forall>a. a \<noteq> fresh s \<and> a \<notin> set as \<longrightarrow> heap s' a = heap s a) \<and>
     isSorted l' = (isSorted l \<and> (as = [] \<or> val s (last as) \<le> v))"
proof (cases as rule: rev_cases)
  case Nil
  with assms show ?thesis
    by (auto simp: wf_list_def fwd_list_def pushBack_def new_node_def emptyL_def val_def)
next
  case (snoc bs b)
  with assms obtain n where n: "heap s b = Some n" "tailNode l = Some b" "b < fresh s"
    by (auto simp: wf_list_def fwd_list_def split: option.splits)
  from assms snoc have nf: "fresh s \<notin> set as"
    by (auto simp: wf_list_def fwd_list_def list_all_iff)
  show ?thesis using assms snoc n nf
    apply (simp add: pushBack_def new_node_def emptyL_def modify_def deref_def Let_def wf_list_def fwd_list_def val_def)
    apply (auto simp: path_upd_other path_upd_field path_append list_all_iff split: option.splits)
    done
qed

lemma popFront_wf:
  assumes "wf_list s l (a # as)"
  shows "\<exists>s' l'. popFront s l = Inr (s', l') \<and> wf_list s' l' as \<and>
     fresh s' = fresh s \<and> heap s' a = None \<and>
     (\<forall>b. b \<noteq> a \<longrightarrow> val s' b = val s b) \<and>
     (\<forall>b. b \<notin> set (a # as) \<longrightarrow> heap s' b = heap s b) \<and>
     isSorted l' = isSorted l"
proof (cases as)
  case Nil
  with assms show ?thesis
    by (auto simp: wf_list_def fwd_list_def popFront_def delete_node_def emptyL_def val_def split: option.splits)
next
  case (Cons b bs)
  show ?thesis using assms Cons
    apply (simp add: popFront_def delete_node_def emptyL_def modify_def deref_def Let_def wf_list_def fwd_list_def val_def)
    apply (auto simp: path_upd_other path_upd_field path_append list_all_iff split: option.splits)
    done
qed

lemma popBack_wf:
  assumes "wf_list s l (as @ [a])"
  shows "\<exists>s' l'. popBack s l = Inr (s', l') \<and> wf_list s' l' as \<and>
     fresh s' = fresh s \<and> heap s' a = None \<and>
     (\<forall>b. b \<noteq> a \<longrightarrow> val s' b = val s b) \<and>
     (\<forall>b. b \<notin> set (a # as) \<longrightarrow> heap s' b = heap s b) \<and>
     isSorted l' = isSorted l"
proof (cases as rule: rev_cases)
  case Nil
  with assms show ?thesis
    by (auto simp: wf_list_def fwd_list_def popBack_def delete_node_def emptyL_def val_def split: option.splits)
next
  case (snoc bs b)
  show ?thesis using assms snoc
    apply (simp add: popBack_def delete_node_def emptyL_def modify_def deref_def Let_def wf_list_def fwd_list_def val_def)
    apply (auto simp: path_upd_other path_upd_field path_append list_all_iff split: option.splits)
    done
qed

lemma pop_empty:
  "wf_list s l [] \<Longrightarrow> popFront s l = Inl Underflow \<and> popBack s l = Inl Underflow"
  by (simp add: wf_list_def fwd_list_def popFront_def popBack_def emptyL_def)


subsection \<open>clear, toVector and checkIntegrity on well-formed lists\<close>


lemma clear_loop_wf:
  "wf_list s l as \<Longrightarrow>
   \<exists>s'. clear_loop s l = Inr (s', \<lparr>headNode = None, tailNode = None, listSize = 0, isSorted = isSorted l\<rparr>)
      \<and> fresh s' = fresh s \<and> (\<forall>a\<in>set as. heap s' a = None) \<and> (\<forall>b. b \<notin> set as \<longrightarrow> heap s' b = heap s b)"
proof (induction as arbitrary: s l)
  case Nil
  then show ?case
    by (subst clear_loop.simps) (auto simp: wf_list_def fwd_list_def emptyL_def)
next
  case (Cons a as)
  from popFront_wf[OF Cons.prems] obtain s1 l1 where
    p: "popFront s l = Inr (s1, l1)" "wf_list s1 l1 as" "fresh s1 = fresh s" "heap s1 a = None"
       "\<forall>b. b \<notin> set (a # as) \<longrightarrow> heap s1 b = heap s b" "isSorted l1 = isSorted l"
    by blast
  from Cons.prems have ne: "\<not> emptyL l" "a \<notin> set as"
    by (auto simp: wf_list_def fwd_list_def emptyL_def)
  from Cons.IH[OF p(2)] obtain s' where
    c: "clear_loop s1 l1 = Inr (s', \<lparr>headNode = None, tailNode = None, listSize = 0, isSorted = isSorted l1\<rparr>)"
       "fresh s' = fresh s1" "\<forall>a\<in>set as. heap s' a = None" "\<forall>b. b \<notin> set as \<longrightarrow> heap s' b = heap s1 b"
    by blast
  show ?case
    using p c ne by (subst clear_loop.simps) auto
qed

lemma clear_wf:
  assumes "wf_list s l as"
  shows "\<exists>s'. clear s l = Inr (s', \<lparr>headNode = None, tailNode = None, listSize = 0, isSorted = True\<rparr>)
      \<and> fresh s' = fresh s \<and> (\<forall>a\<in>set as. heap s' a = None) \<and> (\<forall>b. b \<notin> set as \<longrightarrow> heap s' b = heap s b)"
proof -
  from clear_loop_wf[OF assms] obtain s' where
    c: "clear_loop s l = Inr (s', \<lparr>headNode = None, tailNode = None, listSize = 0, isSorted = isSorted l\<rparr>)"
       "fresh s' = fresh s" "\<forall>a\<in>set as. heap s' a = None" "\<forall>b. b \<notin> set as \<longrightarrow> heap s' b = heap s b"
    by blast
  show ?thesis unfolding clear_def c(1) using c(2-4) by simp
qed

lemma toVector_loop_path:
  "path nextp (heap s) p as None \<Longrightarrow> toVector_loop s p acc = Some (Inr (acc @ elems s as))"
proof (induction as arbitrary: p acc)
  case Nil
  then show ?case by (subst toVector_loop.simps) (simp add: elems_def)
next
  case (Cons a as)
  then show ?case
    by (subst toVector_loop.simps) (auto simp: elems_def val_def split: option.splits)
qed

lemma toVector_fwd: "fwd_list s l as \<Longrightarrow> toVector s l = Some (Inr (elems s as))"
  using toVector_loop_path[of s "headNode l" as "[]"] by (simp add: toVector_def fwd_list_def)

lemma checkIntegrity_forward_path:
  "path nextp (heap s) p bs None \<Longrightarrow> (bs \<noteq> [] \<longrightarrow> tailNode l = Some (last bs)) \<Longrightarrow>
   checkIntegrity_forward s l p c = Some (Inr (Inr (c + length bs)))"
proof (induction bs arbitrary: p c)
  case Nil
  then show ?case by (subst checkIntegrity_forward.simps) simp
next
  case (Cons a bs)
  then obtain n where n: "p = Some a" "heap s a = Some n" "path nextp (heap s) (nextp n) bs None"
    by (auto split: option.splits)
  show ?case
  proof (cases bs)
    case Nil
    with n Cons.prems Cons.IH[of "nextp n" "c + 1"] show ?thesis
      by (subst checkIntegrity_forward.simps) auto
  next
    case (Cons b bs')
    with n Cons.prems Cons.IH[of "nextp n" "c + 1"] show ?thesis
      by (subst checkIntegrity_forward.simps) auto
  qed
qed

lemma checkIntegrity_backward_path:
  "path prevp (heap s) p bs None \<Longrightarrow> (bs \<noteq> [] \<longrightarrow> headNode l = Some (last bs)) \<Longrightarrow>
   checkIntegrity_backward s l p c = Some (Inr (Inr (c + length bs)))"
proof (induction bs arbitrary: p c)
  case Nil
  then show ?case by (subst checkIntegrity_backward.simps) simp
next
  case (Cons a bs)
  then obtain n where n: "p = Some a" "heap s a = Some n" "path prevp (heap s) (prevp n) bs None"
    by (auto split: option.splits)
  show ?case
  proof (cases bs)
    case Nil
    with n Cons.prems Cons.IH[of "prevp n" "c + 1"] show ?thesis
      by (subst checkIntegrity_backward.simps) auto
  next
    case (Cons b bs')
    with n Cons.prems Cons.IH[of "prevp n" "c + 1"] show ?thesis
      by (subst checkIntegrity_backward.simps) auto
  qed
qed

lemma prev_of_successor:
  assumes "path prevp h t (rev as) None" and "as = xs @ a # b # ys"
  shows "\<exists>m. h b = Some m \<and> prevp m = Some a"
proof -
  from assms have "path prevp h t (rev ys @ b # a # rev xs) None" by simp
  then obtain r where "path prevp h r (b # a # rev xs) None"
    unfolding path_append by blast
  then show ?thesis by (auto split: option.splits)
qed

lemma checkIntegrity_links_path:
  "path nextp (heap s) p bs None \<Longrightarrow> path prevp (heap s) t (rev as) None \<Longrightarrow> as = xs @ bs \<Longrightarrow>
   checkIntegrity_links s p = Some (Inr True)"
proof (induction bs arbitrary: p xs)
  case Nil
  then show ?case by (subst checkIntegrity_links.simps) simp
next
  case (Cons a bs)
  then obtain n where n: "p = Some a" "heap s a = Some n" "path nextp (heap s) (nextp n) bs None"
    by (auto split: option.splits)
  show ?case
  proof (cases bs)
    case Nil
    with n show ?thesis by (subst checkIntegrity_links.simps) auto
  next
    case (Cons b bs')
    with n have nb: "nextp n = Some b" by (auto split: option.splits)
    from prev_of_successor[OF Cons.prems(2), of xs a b bs'] Cons.prems(3) Cons
    obtain m where m: "heap s b = Some m" "prevp m = Some a" by auto
    have "checkIntegrity_links s (nextp n) = Some (Inr True)"
      using Cons.IH[OF n(3) Cons.prems(2), of "xs @ [a]"] Cons.prems(3) by simp
    with n nb m show ?thesis by (subst checkIntegrity_links.simps) auto
  qed
qed

lemma checkIntegrity_wf:
  assumes "wf_list s l as"
  shows "checkIntegrity s l = Some (Inr True)"
proof -
  from assms have f: "path nextp (heap s) (headNode l) as None"
    and b: "path prevp (heap s) (tailNode l) (rev as) None"
    and n: "listSize l = length as"
    by (auto simp: wf_list_def fwd_list_def)
  consider "as = []" | a where "as = [a]" | "length as \<ge> 2"
    by (cases as; cases "tl as") auto
  then show ?thesis
  proof cases
    case 1
    with f b n show ?thesis by (simp add: checkIntegrity_def)
  next
    case 2
    with f b n show ?thesis by (auto simp: checkIntegrity_def deref_def split: option.splits)
  next
    case 3
    then have ne: "as \<noteq> []" by auto
    from f ne have hd: "headNode l = Some (hd as)" by (cases as) auto
    from b ne have tl: "tailNode l = Some (last as)" by (cases as rule: rev_cases) auto
    have 1: "checkIntegrity_forward s l (headNode l) 0 = Some (Inr (Inr (length as)))"
      using checkIntegrity_forward_path[OF f, of l 0] tl by simp
    have 2: "checkIntegrity_backward s l (tailNode l) 0 = Some (Inr (Inr (length as)))"
      using checkIntegrity_backward_path[OF b, of l 0] hd ne by (simp add: last_rev)
    have 3: "checkIntegrity_links s (headNode l) = Some (Inr True)"
      using checkIntegrity_links_path[OF f b, of "[]"] by simp
    from 1 2 3 n ne \<open>length as \<ge> 2\<close> show ?thesis by (simp add: checkIntegrity_def)
  qed
qed

lemma wf_list_new: "wf_list s List_new []"
  by (simp add: wf_list_def fwd_list_def List_new_def)

lemma apply_op_wf:
  assumes "wf_list s l as" "apply_op x s l = Inr (s', l')"
  shows "\<exists>as'. wf_list s' l' as'"
proof (cases x)
  case (PushFront v)
  with assms pushFront_wf[OF assms(1), of v] show ?thesis by auto
next
  case (PushBack v)
  with assms pushBack_wf[OF assms(1), of v] show ?thesis by auto
next
  case PopFront
  show ?thesis
  proof (cases as)
    case Nil
    with assms PopFront pop_empty[of s l] show ?thesis by simp
  next
    case (Cons a bs)
    with assms PopFront popFront_wf[of s l a bs] show ?thesis by auto
  qed
next
  case PopBack
  show ?thesis
  proof (cases as rule: rev_cases)
    case Nil
    with assms PopBack pop_empty[of s l] show ?thesis by simp
  next
    case (snoc bs a)
    with assms PopBack popBack_wf[of s l bs a] show ?thesis by auto
  qed
qed

lemma run_ops_wf:
  "wf_list s l as \<Longrightarrow> run_ops ops s l = Inr (s', l') \<Longrightarrow> \<exists>as'. wf_list s' l' as'"
proof (induction ops arbitrary: s l as)
  case Nil
  then show ?case by auto
next
  case (Cons x ops)
  from Cons.prems(2) obtain s1 l1 where 1: "apply_op x s l = Inr (s1, l1)" "run_ops ops s1 l1 = Inr (s', l')"
    by (auto split: sum.splits)
  from apply_op_wf[OF Cons.prems(1) 1(1)] obtain as1 where "wf_list s1 l1 as1" ..
  from Cons.IH[OF this 1(2)] show ?case .
qed


lemma apply_op_error:
  assumes "wf_list s l as" "apply_op x s l = Inl e"
  shows "e = Underflow"
proof (cases x)
  case (PushFront v)
  with assms pushFront_wf[OF assms(1), of v] show ?thesis by auto
next
  case (PushBack v)
  with assms pushBack_wf[OF assms(1), of v] show ?thesis by auto
next
  case PopFront
  show ?thesis
  proof (cases as)
    case Nil
    with assms PopFront pop_empty[of s l] show ?thesis by simp
  next
    case (Cons a bs)
    with assms PopFront popFront_wf[of s l a bs] show ?thesis by auto
  qed
next
  case PopBack
  show ?thesis
  proof (cases as rule: rev_cases)
    case Nil
    with assms PopBack pop_empty[of s l] show ?thesis by simp
  next
    case (snoc bs a)
    with assms PopBack popBack_wf[of s l bs a] show ?thesis by auto
  qed
qed

lemma run_ops_error:
  "wf_list s l as \<Longrightarrow> run_ops ops s l = Inl e \<Longrightarrow> e = Underflow"
proof (induction ops arbitrary: s l as)
  case Nil
  then show ?case by simp
next
  case (Cons x ops)
  show ?case
  proof (cases "apply_op x s l")
    case (Inl e')
    with Cons.prems apply_op_error[OF Cons.prems(1) Inl] show ?thesis by simp
  next
    case (Inr r)
    obtain s1 l1 where r: "r = (s1, l1)" by (cases r)
    from apply_op_wf[OF Cons.prems(1)] Inr r obtain as1 where w: "wf_list s1 l1 as1" by blast
    from Cons.prems(2) Inr r have "run_ops ops s1 l1 = Inl e" by simp
    from Cons.IH[OF w this] show ?thesis .
  qed
qed

text \<open>
  Claim C2. Start from the empty list and run any finite sequence of \<open>pushFront\<close>,
  \<open>pushBack\<close>, \<open>popFront\<close> and \<open>popBack\<close>. The run stops with the underflow
  error when a pop meets an empty list, and with no other error. When no pop meets an
  empty list the run returns, \<open>checkIntegrity()\<close> returns true, and a full forward
  traversal from \<open>headNode\<close> visits exactly \<open>size()\<close> nodes.
\<close>

theorem push_pop_integrity:
  "case run_ops ops s0 List_new of
     Inl e \<Rightarrow> e = Underflow
   | Inr (s, l) \<Rightarrow>
       checkIntegrity s l = Some (Inr True) \<and>
       (\<exists>xs. toVector s l = Some (Inr xs) \<and> length xs = sizeL l)"
proof (cases "run_ops ops s0 List_new")
  case (Inl e)
  with run_ops_error[OF wf_list_new Inl] show ?thesis by simp
next
  case (Inr r)
  obtain s l where r: "r = (s, l)" by (cases r)
  from run_ops_wf[OF wf_list_new] Inr r obtain as where w: "wf_list s l as" by blast
  then have "toVector s l = Some (Inr (elems s as))" "length (elems s as) = sizeL l"
    by (auto simp: wf_list_def toVector_fwd elems_def fwd_list_def sizeL_def)
  with checkIntegrity_wf[OF w] Inr r show ?thesis by simp
qed

theorem push_pop_integrity_witness:
  "\<exists>s l. run_ops [PushBack 2, PushFront 5, PushBack 3, PopFront, PushFront 1, PopBack]
            empty_store List_new = Inr (s, l) \<and>
         checkIntegrity s l = Some (Inr True) \<and>
         (\<exists>xs. toVector s l = Some (Inr xs) \<and> length xs = sizeL l)"
proof -
  obtain s l where r:
    "run_ops [PushBack 2, PushFront 5, PushBack 3, PopFront, PushFront 1, PopBack]
       empty_store List_new = Inr (s, l)"
    by (simp add: empty_store_def List_new_def pushFront_def pushBack_def popFront_def
        popBack_def new_node_def modify_def deref_def delete_node_def emptyL_def Let_def)
  from push_pop_integrity [of "[PushBack 2, PushFront 5, PushBack 3, PopFront, PushFront 1, PopBack]"
      empty_store] r
  show ?thesis by simp
qed

text \<open>
  Claim C10. On every well-formed list \<open>clear()\<close> returns, and leaves \<open>headNode\<close> and
  \<open>tailNode\<close> null, \<open>size() == 0\<close> and \<open>sorted() == true\<close>, whatever the flag was
  before; every node of the list has been deleted.
\<close>

theorem clear_resets_sorted:
  assumes "wf_list s l as"
  shows "\<exists>s'. clear s l =
           Inr (s', \<lparr>headNode = None, tailNode = None, listSize = 0, isSorted = True\<rparr>) \<and>
         (\<forall>a\<in>set as. heap s' a = None)"
  using clear_wf [OF assms] by blast

theorem clear_resets_sorted_witness:
  "wf_list store_21 list_21 [0, 1] \<and> \<not> sortedL list_21 \<and>
   (\<exists>s'. clear store_21 list_21 =
           Inr (s', \<lparr>headNode = None, tailNode = None, listSize = 0, isSorted = True\<rparr>) \<and>
         (\<forall>a\<in>set [0, 1]. heap s' a = None))"
proof -
  have w: "wf_list store_21 list_21 [0, 1]"
    by (simp add: wf_list_def fwd_list_def store_21_def list_21_def)
  from clear_resets_sorted [OF w] w show ?thesis
    by (simp add: list_21_def sortedL_def)
qed

subsection \<open>reverse\<close>

lemmas run_defs = empty_store_def List_new_def List_init_def pushFront_def pushBack_def
  popFront_def popBack_def new_node_def modify_def deref_def delete_node_def emptyL_def
  Let_def bindO_def

lemma reverse_loop_path:
  "path nextp (heap s) p as None \<Longrightarrow> distinct as \<Longrightarrow>
   reverse_loop s p t =
     Some (Inr (s\<lparr>heap := swap_links (heap s) as\<rparr>,
                if as = [] then t else prevp (the (heap s (last as)))))"
proof (induction as arbitrary: s p t)
  case Nil
  then show ?case by (subst reverse_loop.simps) (simp add: swap_links_def)
next
  case (Cons a as)
  then obtain n where n: "p = Some a" "heap s a = Some n" "path nextp (heap s) (nextp n) as None"
    by (auto split: option.splits)
  let ?s1 = "s\<lparr>heap := (heap s)(a \<mapsto> n\<lparr>prevp := nextp n, nextp := prevp n\<rparr>)\<rparr>"
  from n Cons.prems have p1: "path nextp (heap ?s1) (nextp n) as None"
    by (simp add: path_upd_other)
  have h: "swap_links (heap ?s1) as = swap_links (heap s) (a # as)"
    using Cons.prems n by (auto simp: swap_links_def fun_eq_iff)
  have l: "as \<noteq> [] \<Longrightarrow> prevp (the (heap ?s1 (last as))) = prevp (the (heap s (last as)))"
    using Cons.prems by auto
  have step: "reverse_loop s p t = reverse_loop ?s1 (nextp n) (prevp n)"
    using n by (subst reverse_loop.simps) simp
  have upd: "?s1\<lparr>heap := swap_links (heap ?s1) as\<rparr> = s\<lparr>heap := swap_links (heap s) (a # as)\<rparr>"
    unfolding h by simp
  have t: "(if as = [] then prevp n else prevp (the (heap ?s1 (last as)))) =
           prevp (the (heap s (last (a # as))))"
    using l n by auto
  from Cons.prems have "distinct as" by simp
  from Cons.IH[OF p1 this, of "prevp n"] show ?case
    unfolding step upd t by simp
qed

lemma two_last: "2 \<le> length as \<Longrightarrow> \<exists>bs b c. as = bs @ [b, c]"
proof (cases as rule: rev_cases)
  case (snoc ys c)
  assume "2 \<le> length as"
  with snoc show ?thesis by (cases ys rule: rev_cases) auto
qed simp

lemma reverse_wf:
  assumes "wf_list s l as"
  shows "\<exists>s' l'. reverse s l = Some (Inr (s', l')) \<and>
           isSorted l' = (if listSize l \<le> 1 then isSorted l else False)"
proof (cases "listSize l \<le> 1")
  case True
  then show ?thesis by (simp add: reverse_def)
next
  case False
  with assms have len: "length as \<ge> 2" by (simp add: wf_list_def fwd_list_def)
  from two_last[OF this] obtain bs b c where as: "as = bs @ [b, c]" by blast
  from assms have f: "path nextp (heap s) (headNode l) as None" and d: "distinct as"
    and b: "path prevp (heap s) (tailNode l) (rev as) None"
    by (auto simp: wf_list_def fwd_list_def)
  from prev_of_successor[OF b, of bs b c "[]"] as obtain m where
    m: "heap s c = Some m" "prevp m = Some b" by auto
  from path_alloc[OF f, of b] as obtain nb where nb: "heap s b = Some nb" by auto
  have t: "swap_links (heap s) as b \<noteq> None" using nb as by (simp add: swap_links_def)
  show ?thesis
    using False reverse_loop_path[OF f d, of None] as m t
    by (auto simp: reverse_def deref_def split: option.splits)
qed

lemma path_swap_links:
  "path prevp h p bs q \<Longrightarrow> set bs \<subseteq> set as \<Longrightarrow> path nextp (swap_links h as) p bs q"
  by (induction bs arbitrary: p) (auto simp: swap_links_def split: option.splits)

lemma swap_links_twice: "set bs = set as \<Longrightarrow> swap_links (swap_links h as) bs = h"
  by (auto simp: swap_links_def fun_eq_iff map_option_case split: option.splits)

lemma reverse_once:
  assumes w: "wf_list s l as" and n: "2 \<le> length as"
  shows "reverse s l =
     Some (Inr (s\<lparr>heap := swap_links (heap s) as\<rparr>,
                \<lparr>headNode = Some (last as), tailNode = Some (last as),
                 listSize = length as, isSorted = False\<rparr>))"
proof -
  from two_last[OF n] obtain bs b c where as: "as = bs @ [b, c]" by blast
  from w have f: "path nextp (heap s) (headNode l) as None" and d: "distinct as"
    and bk: "path prevp (heap s) (tailNode l) (rev as) None" and sz: "listSize l = length as"
    by (auto simp: wf_list_def fwd_list_def)
  from prev_of_successor[OF bk, of bs b c "[]"] as obtain m where
    m: "heap s c = Some m" "prevp m = Some b" by auto
  from path_alloc[OF f, of b] as obtain nb where nb: "heap s b = Some nb" by auto
  from f as nb have nx: "nextp nb = Some c"
    by (auto simp: path_append split: option.splits)
  from bk as have tl: "tailNode l = Some c" by simp
  have sw: "swap_links (heap s) as b = Some (nb\<lparr>prevp := Some c, nextp := prevp nb\<rparr>)"
    using nb nx as by (simp add: swap_links_def)
  have "l\<lparr>headNode := Some c, tailNode := Some c, isSorted := False\<rparr> =
        \<lparr>headNode = Some c, tailNode = Some c, listSize = length as, isSorted = False\<rparr>"
    using sz by simp
  then show ?thesis
    using n sz reverse_loop_path[OF f d, of None] as m sw tl
    by (simp add: reverse_def deref_def)
qed

lemma reverse_twice_wf:
  assumes w: "wf_list s l as" and n: "2 \<le> length as"
  shows "bindO (reverse s l) (\<lambda>(s1, l1). reverse s1 l1) =
     Some (Inr (s, \<lparr>headNode = Some (last as), tailNode = Some (hd as),
                     listSize = length as, isSorted = False\<rparr>))"
proof -
  let ?s1 = "s\<lparr>heap := swap_links (heap s) as\<rparr>"
  let ?l1 = "\<lparr>headNode = Some (last as), tailNode = Some (last as),
              listSize = length as, isSorted = False\<rparr>"
  from w have f: "path nextp (heap s) (headNode l) as None" and d: "distinct as"
    and bk: "path prevp (heap s) (tailNode l) (rev as) None"
    by (auto simp: wf_list_def fwd_list_def)
  from n obtain a a' cs where as: "as = a # a' # cs"
    by (cases as; cases "tl as") auto
  from n have ne: "as \<noteq> []" by auto
  from bk ne have tl: "tailNode l = Some (last as)" by (cases as rule: rev_cases) auto
  have p1: "path nextp (heap ?s1) (Some (last as)) (rev as) None"
    using path_swap_links[OF bk, of as] tl by simp
  from f as obtain na na' where
    na: "heap s a = Some na" "nextp na = Some a'" "heap s a' = Some na'"
    by (auto split: option.splits)
  from prev_of_successor[OF bk, of "[]" a a' cs] as na have pa': "prevp na' = Some a" by simp
  have t: "prevp (the (heap ?s1 (last (rev as)))) = Some a'"
    using as na by (simp add: swap_links_def)
  have restored: "?s1\<lparr>heap := swap_links (heap ?s1) (rev as)\<rparr> = s"
    using swap_links_twice[of "rev as" as "heap s"] by simp
  have loop2: "reverse_loop ?s1 (Some (last as)) None = Some (Inr (s, Some a'))"
    using reverse_loop_path[OF p1, of None] d ne t restored by simp
  have r2: "reverse ?s1 ?l1 =
     Some (Inr (s, \<lparr>headNode = Some (last as), tailNode = Some (hd as),
                     listSize = length as, isSorted = False\<rparr>))"
    using n loop2 na pa' as by (simp add: reverse_def deref_def)
  show ?thesis
    unfolding reverse_once[OF w n] using r2 by (simp add: bindO_def)
qed

text \<open>
  What two calls of \<open>reverse()\<close> do to a well-formed list of two or more elements:
  the store is back as it was, but \<open>headNode\<close> is left on the last node and
  \<open>tailNode\<close> on the first. A forward traversal then sees the last element only,
  and \<open>operator==\<close> answers false against every list with a proper forward chain.
\<close>

lemma reverse_twice_loses_elements:
  assumes w: "wf_list s l as" and n: "2 \<le> length as" and o: "fwd_list s other bs"
  shows "\<exists>l2. bindO (reverse s l) (\<lambda>(s1, l1). reverse s1 l1) = Some (Inr (s, l2)) \<and>
     sizeL l2 = sizeL l \<and> toVector s l2 = Some (Inr [val s (last as)]) \<and>
     operator_eq s l2 other = Some (Inr False)"
proof -
  let ?l2 = "\<lparr>headNode = Some (last as), tailNode = Some (hd as),
              listSize = length as, isSorted = False\<rparr>"
  from w have f: "path nextp (heap s) (headNode l) as None"
    and sz: "listSize l = length as"
    by (auto simp: wf_list_def fwd_list_def)
  from two_last[OF n] obtain cs b c where as: "as = cs @ [b, c]" by blast
  from f as obtain m where m: "heap s c = Some m" "nextp m = None"
    by (auto simp: path_append split: option.splits)
  have tv: "toVector s ?l2 = Some (Inr [val s (last as)])"
    using m as by (simp add: toVector_def toVector_loop.simps val_def)
  have eq: "operator_eq s ?l2 other = Some (Inr False)"
  proof (cases "length as = listSize other")
    case False
    then show ?thesis by (simp add: operator_eq_def)
  next
    case True
    with o n obtain x y ys where bs: "bs = x # y # ys"
      by (cases bs; cases "tl bs") (auto simp: fwd_list_def)
    with o obtain nx where nx: "headNode other = Some x" "heap s x = Some nx" "nextp nx = Some y"
      by (auto simp: fwd_list_def split: option.splits)
    show ?thesis
      using True m nx as
      by (simp add: operator_eq_def operator_eq_loop.simps)
  qed
  from reverse_twice_wf[OF w n] tv eq sz show ?thesis
    by (intro exI[of _ ?l2]) (simp add: sizeL_def)
qed

text \<open>
  Claim C3, at the list \<open>[1, 2]\<close>. Two lists are built from the same initializer list
  and one of them is reversed twice: \<open>operator==\<close> then answers false. The second
  \<open>reverse()\<close> leaves \<open>headNode\<close> on the last node of the chain, so a forward traversal of
  the twice-reversed list sees the single element \<open>2\<close>. A list of one element is
  returned as it was.
\<close>

theorem reverse_twice_not_equal:
  "reverse_twice_test [1, 2] = Some (Inr False) \<and>
   reverse_twice_vector [1, 2] = Some (Inr [2]) \<and>
   reverse_twice_test [7] = Some (Inr True)"
  unfolding reverse_twice_test_def reverse_twice_vector_def
  by (simp add: run_defs reverse_def reverse_loop.simps operator_eq_def operator_eq_loop.simps
      toVector_def toVector_loop.simps)

text \<open>
  Claim C9 as stated fails on the empty list: \<open>reverse()\<close> returns it unchanged, with
  the flag still true.
\<close>

theorem reverse_keeps_flag_on_empty:
  "reverse empty_store List_new = Some (Inr (empty_store, List_new)) \<and> sortedL List_new"
  by (simp add: reverse_def List_new_def sortedL_def)

text \<open>
  Claim C9, amended. On every well-formed list \<open>reverse()\<close> returns; it clears the
  sorted flag when the list has more than one element, and leaves the flag as it was
  when the list has zero or one element.
\<close>

theorem reverse_flag:
  assumes "wf_list s l as"
  shows "\<exists>s' l'. reverse s l = Some (Inr (s', l')) \<and>
           sortedL l' = (if sizeL l \<le> 1 then sortedL l else False)"
  unfolding sortedL_def sizeL_def by (rule reverse_wf [OF assms])

theorem reverse_flag_witness:
  "wf_list store_12 list_12 [0, 1] \<and>
   (\<exists>s' l'. reverse store_12 list_12 = Some (Inr (s', l')) \<and>
       sortedL l' = (if sizeL list_12 \<le> 1 then sortedL list_12 else False))"
proof -
  have w: "wf_list store_12 list_12 [0, 1]"
    by (simp add: wf_list_def fwd_list_def store_12_def list_12_def)
  from reverse_flag [OF w] w show ?thesis by blast
qed

subsection \<open>forEach\<close>

text \<open>
  Claim C4, at the list \<open>[1, 2]\<close> and the function that negates its argument. After
  \<open>forEach\<close> the list holds \<open>[-1, -2]\<close>: \<open>sorted()\<close> still answers true while
  \<open>isSortedCheck()\<close> answers false.
\<close>

theorem forEach_keeps_flag_on_unsorted:
  "forEach_test uminus [1, 2] = Some (Inr (True, False))"
  unfolding forEach_test_def
  by (simp add: run_defs forEach_def forEach_loop.simps isSortedCheck_def
      isSortedCheck_loop.simps sortedL_def)

subsection \<open>Index resolution and binary search on well-formed lists\<close>

lemma walk_path:
  "path f (heap s) p as None \<Longrightarrow> k < length as \<Longrightarrow> walk f s k p = Inr (Some (as ! k))"
proof (induction k arbitrary: p as)
  case 0
  then show ?case by (cases as) auto
next
  case (Suc k)
  then show ?case by (cases as) (auto simp: deref_def split: option.splits)
qed

lemma getNodeAt_wf:
  assumes "wf_list s l as" "i < length as"
  shows "getNodeAt s l i = Inr (Some (as ! i))"
proof -
  from assms have f: "path nextp (heap s) (headNode l) as None"
    and b: "path prevp (heap s) (tailNode l) (rev as) None"
    and n: "listSize l = length as"
    by (auto simp: wf_list_def fwd_list_def)
  have "walk prevp s (length as - 1 - i) (tailNode l) = Inr (Some (rev as ! (length as - 1 - i)))"
    using walk_path[OF b, of "length as - 1 - i"] assms(2) by simp
  moreover have "rev as ! (length as - 1 - i) = as ! i"
    using assms(2) by (simp add: rev_nth)
  ultimately show ?thesis
    using walk_path[OF f assms(2)] n assms(2) by (simp add: getNodeAt_def)
qed

lemma at_wf:
  assumes "wf_list s l as" "i < length as"
  shows "at s l i = Inr (elems s as ! i)"
proof -
  from assms have f: "path nextp (heap s) (headNode l) as None"
    by (auto simp: wf_list_def fwd_list_def)
  from path_alloc[OF f, of "as ! i"] assms(2) obtain n where "heap s (as ! i) = Some n" by auto
  with getNodeAt_wf[OF assms] assms(2) show ?thesis
    by (simp add: at_def deref_def elems_def val_def)
qed

lemma binarySearch_loop_correct:
  assumes "wf_list s l as" "sorted (elems s as)"
  shows "right < length as \<Longrightarrow> left \<le> right + 1 \<Longrightarrow>
     (\<forall>i<left. elems s as ! i < v) \<Longrightarrow>
     (\<forall>i. right < i \<and> i < length as \<longrightarrow> v < elems s as ! i) \<Longrightarrow>
     binarySearch_loop s l v left right = Inr (v \<in> set (elems s as))"
  using assms
proof (induction s l v left right rule: binarySearch_loop.induct)
  case (1 s l v left right)
  let ?xs = "elems s as"
  let ?mid = "left + (right - left) div 2"
  note wf = "1.prems"(5) and srt = "1.prems"(6)
  have len: "length ?xs = length as" by (simp add: elems_def)
  show ?case
  proof (cases "left \<le> right")
    case False
    with "1.prems"(2) have "left = right + 1" by simp
    with "1.prems"(3,4) have "\<forall>i<length as. ?xs ! i \<noteq> v"
      by (metis Suc_eq_plus1 less_Suc_eq_le not_less order_less_irrefl)
    then have "v \<notin> set ?xs" by (auto simp: in_set_conv_nth len)
    with False show ?thesis by (subst binarySearch_loop.simps) simp
  next
    case True
    then have mid: "left \<le> ?mid" "?mid \<le> right" "?mid < length as" using "1.prems"(1) by auto
    have at: "at s l ?mid = Inr (?xs ! ?mid)" using at_wf[OF wf mid(3)] by simp
    consider (eq) "?xs ! ?mid = v" | (lt) "?xs ! ?mid < v" | (gt) "v < ?xs ! ?mid" by fastforce
    then show ?thesis
    proof cases
      case eq
      then have "v \<in> set ?xs" using mid(3) len by (metis nth_mem)
      with eq True at show ?thesis by (subst binarySearch_loop.simps) simp
    next
      case lt
      have below: "\<forall>i<?mid + 1. ?xs ! i < v"
      proof (intro allI impI)
        fix i assume "i < ?mid + 1"
        then have "?xs ! i \<le> ?xs ! ?mid"
          using srt mid(3) len by (auto intro!: sorted_nth_mono)
        with lt show "?xs ! i < v" by simp
      qed
      have "binarySearch_loop s l v (?mid + 1) right = Inr (v \<in> set ?xs)"
        using "1.IH"(1)[OF True at _ lt "1.prems"(1) _ below "1.prems"(4) wf srt] lt mid by auto
      moreover have "?xs ! ?mid \<noteq> v" using lt by auto
      ultimately show ?thesis using lt True at by (subst binarySearch_loop.simps) simp
    next
      case gt
      have above: "\<forall>i. ?mid \<le> i \<and> i < length as \<longrightarrow> v < ?xs ! i"
      proof (intro allI impI)
        fix i assume "?mid \<le> i \<and> i < length as"
        then have "?xs ! ?mid \<le> ?xs ! i"
          using srt len by (auto intro!: sorted_nth_mono)
        with gt show "v < ?xs ! i" by simp
      qed
      show ?thesis
      proof (cases "?mid = 0")
        case z: True
        with above have "\<forall>i<length as. ?xs ! i \<noteq> v" by auto
        then have "v \<notin> set ?xs" by (auto simp: in_set_conv_nth len)
        with gt True at z show ?thesis by (subst binarySearch_loop.simps) auto
      next
        case nz: False
        have 1: "?xs ! ?mid \<noteq> v" "\<not> ?xs ! ?mid < v" using gt by auto
        have 2: "?mid - 1 < length as" "left \<le> ?mid - 1 + 1" using mid nz by auto
        have 3: "\<forall>i. ?mid - 1 < i \<and> i < length as \<longrightarrow> v < ?xs ! i" using above nz by auto
        have "binarySearch_loop s l v left (?mid - 1) = Inr (v \<in> set ?xs)"
          using "1.IH"(2)[OF True at 1 nz 2 "1.prems"(3) 3 wf srt] .
        with gt True at nz show ?thesis by (subst binarySearch_loop.simps) auto
      qed
    qed
  qed
qed

lemma binarySearchIndex_loop_returns:
  assumes "wf_list s l as"
  shows "right < length as \<Longrightarrow> \<exists>i. binarySearchIndex_loop s l v left right = Inr i"
  using assms
proof (induction s l v left right rule: binarySearchIndex_loop.induct)
  case (1 s l v left right)
  let ?mid = "left + (right - left) div 2"
  show ?case
  proof (cases "left \<le> right")
    case False
    then show ?thesis by (subst binarySearchIndex_loop.simps) simp
  next
    case True
    then have mid: "?mid < length as" "?mid - 1 < length as" using "1.prems"(1) by auto
    from at_wf[OF "1.prems"(2) mid(1)] obtain x where at: "at s l ?mid = Inr x" by blast
    show ?thesis
      using "1.IH"(1)[OF True at _ _ "1.prems"] "1.IH"(2)[OF True at _ _ _ mid(2) "1.prems"(2)] True at
      by (subst binarySearchIndex_loop.simps) auto
  qed
qed

lemma binarySearch_loop_returns:
  assumes "wf_list s l as"
  shows "right < length as \<Longrightarrow> \<exists>b. binarySearch_loop s l v left right = Inr b"
  using assms
proof (induction s l v left right rule: binarySearch_loop.induct)
  case (1 s l v left right)
  let ?mid = "left + (right - left) div 2"
  show ?case
  proof (cases "left \<le> right")
    case False
    then show ?thesis by (subst binarySearch_loop.simps) auto
  next
    case True
    then have mid: "?mid < length as" "?mid - 1 < length as" using "1.prems"(1) by auto
    from at_wf[OF "1.prems"(2) mid(1)] obtain x where at: "at s l ?mid = Inr x" by blast
    show ?thesis
      using "1.IH"(1)[OF True at _ _ "1.prems"] "1.IH"(2)[OF True at _ _ _ mid(2) "1.prems"(2)] True at
      by (subst binarySearch_loop.simps) auto
  qed
qed

lemma binarySearch_wf:
  assumes "wf_list s l as"
  shows "(\<not> isSorted l \<longrightarrow>
            binarySearch s l v = Inl LogicError \<and> binarySearchIndex s l v = Inl LogicError) \<and>
         (isSorted l \<longrightarrow>
            (\<exists>b. binarySearch s l v = Inr b \<and> (sorted (elems s as) \<longrightarrow> b = (v \<in> set (elems s as)))) \<and>
            (\<exists>i. binarySearchIndex s l v = Inr i))"
proof (cases "as = []")
  case True
  with assms show ?thesis
    by (auto simp: binarySearch_def binarySearchIndex_def emptyL_def wf_list_def fwd_list_def elems_def)
next
  case False
  with assms have n: "listSize l = length as" "listSize l - 1 < length as" "\<not> emptyL l"
    by (auto simp: wf_list_def fwd_list_def emptyL_def)
  have "sorted (elems s as) \<Longrightarrow>
        binarySearch_loop s l v 0 (listSize l - 1) = Inr (v \<in> set (elems s as))"
  proof -
    assume srt: "sorted (elems s as)"
    have "\<forall>i. listSize l - 1 < i \<and> i < length as \<longrightarrow> v < elems s as ! i"
      using n by auto
    with binarySearch_loop_correct[OF assms srt n(2), of 0 v] show ?thesis by simp
  qed
  moreover note binarySearch_loop_returns[OF assms n(2), of v 0]
  moreover note binarySearchIndex_loop_returns[OF assms n(2), of v 0]
  ultimately show ?thesis
    using n by (auto simp: binarySearch_def binarySearchIndex_def)
qed

lemma walk_no_throw: "\<not> throws (walk f s k p)"
  by (induction k arbitrary: p) (auto simp: throws_def deref_def bindE_def split: option.splits sum.splits)

lemma at_no_throw: "i < listSize l \<Longrightarrow> \<not> throws (at s l i)"
  using walk_no_throw[of nextp s i "headNode l"] walk_no_throw[of prevp s "listSize l - 1 - i" "tailNode l"]
  by (auto simp: at_def getNodeAt_def throws_def deref_def bindE_def split: option.splits sum.splits)

lemma binarySearch_loop_no_throw:
  "right < listSize l \<Longrightarrow> \<not> throws (binarySearch_loop s l v left right)"
proof (induction s l v left right rule: binarySearch_loop.induct)
  case (1 s l v left right)
  let ?mid = "left + (right - left) div 2"
  show ?case
  proof (cases "left \<le> right")
    case False
    then show ?thesis by (subst binarySearch_loop.simps) (simp add: throws_def)
  next
    case True
    then have mid: "?mid < listSize l" "?mid - 1 < listSize l" using "1.prems" by auto
    show ?thesis
    proof (cases "at s l ?mid")
      case (Inl e)
      with at_no_throw[OF mid(1), of s] True show ?thesis
        by (subst binarySearch_loop.simps) (simp add: throws_def)
    next
      case (Inr x)
      with "1.IH"(1)[OF True Inr _ _ "1.prems"] "1.IH"(2)[OF True Inr _ _ _ mid(2)] True
      show ?thesis
        by (subst binarySearch_loop.simps) (auto simp: throws_def)
    qed
  qed
qed

lemma binarySearchIndex_loop_no_throw:
  "right < listSize l \<Longrightarrow> \<not> throws (binarySearchIndex_loop s l v left right)"
proof (induction s l v left right rule: binarySearchIndex_loop.induct)
  case (1 s l v left right)
  let ?mid = "left + (right - left) div 2"
  show ?case
  proof (cases "left \<le> right")
    case False
    then show ?thesis by (subst binarySearchIndex_loop.simps) (simp add: throws_def)
  next
    case True
    then have mid: "?mid < listSize l" "?mid - 1 < listSize l" using "1.prems" by auto
    show ?thesis
    proof (cases "at s l ?mid")
      case (Inl e)
      with at_no_throw[OF mid(1), of s] True show ?thesis
        by (subst binarySearchIndex_loop.simps) (simp add: throws_def)
    next
      case (Inr x)
      with "1.IH"(1)[OF True Inr _ _ "1.prems"] "1.IH"(2)[OF True Inr _ _ _ mid(2)] True
      show ?thesis
        by (subst binarySearchIndex_loop.simps) (auto simp: throws_def)
    qed
  qed
qed

lemma binarySearch_throws:
  "throws (binarySearch s l v) = (\<not> isSorted l) \<and>
   throws (binarySearchIndex s l v) = (\<not> isSorted l)"
  using binarySearch_loop_no_throw[of "listSize l - 1" l s v 0]
    binarySearchIndex_loop_no_throw[of "listSize l - 1" l s v 0]
  by (auto simp: binarySearch_def binarySearchIndex_def emptyL_def throws_def)

lemma binarySearch_examples:
  "binarySearch_test [1, 3, 3, 5, 9] 3 = Inr (True, 2) \<and>
   binarySearch_test [5, 1, 3] 3 = Inl LogicError"
  unfolding binarySearch_test_def
  by (simp add: run_defs binarySearch_def binarySearchIndex_def binarySearch_loop.simps
       binarySearchIndex_loop.simps at_def getNodeAt_def static_cast_int_def)

text \<open>
  Claim C5. In every state \<open>binarySearch\<close> and \<open>binarySearchIndex\<close> throw exactly
  when the sorted flag is false, and what they throw then is the logic error; no scan
  of the elements is involved. On a well-formed list whose flag is true both return,
  and when the elements are non-decreasing \<open>binarySearch(v)\<close> returns true iff \<open>v\<close>
  occurs in the list. On \<open>[1, 3, 3, 5, 9]\<close> the value \<open>3\<close> is found, at index 2; on
  \<open>[5, 1, 3]\<close> the logic error is raised.
\<close>

theorem binarySearch_trusts_flag:
  "throws (binarySearch s l v) = (\<not> sortedL l) \<and>
   throws (binarySearchIndex s l v) = (\<not> sortedL l) \<and>
   (\<not> sortedL l \<longrightarrow>
      binarySearch s l v = Inl LogicError \<and> binarySearchIndex s l v = Inl LogicError) \<and>
   (wf_list s l as \<and> sortedL l \<longrightarrow>
      (\<exists>b. binarySearch s l v = Inr b \<and>
           (sorted (elems s as) \<longrightarrow> b = (v \<in> set (elems s as)))) \<and>
      (\<exists>i. binarySearchIndex s l v = Inr i)) \<and>
   binarySearch_test [1, 3, 3, 5, 9] 3 = Inr (True, 2) \<and>
   binarySearch_test [5, 1, 3] 3 = Inl LogicError"
proof -
  have 1: "\<not> sortedL l \<longrightarrow>
      binarySearch s l v = Inl LogicError \<and> binarySearchIndex s l v = Inl LogicError"
    by (simp add: binarySearch_def binarySearchIndex_def sortedL_def)
  have 2: "wf_list s l as \<and> sortedL l \<longrightarrow>
      (\<exists>b. binarySearch s l v = Inr b \<and>
           (sorted (elems s as) \<longrightarrow> b = (v \<in> set (elems s as)))) \<and>
      (\<exists>i. binarySearchIndex s l v = Inr i)"
    using binarySearch_wf[of s l as v] by (simp add: sortedL_def)
  from 1 2 binarySearch_throws[of s l v] binarySearch_examples show ?thesis
    unfolding sortedL_def by blast
qed

theorem binarySearch_trusts_flag_witness:
  "wf_list store_13359 list_13359 [0, 1, 2, 3, 4] \<and> sortedL list_13359 \<and>
   sorted (elems store_13359 [0, 1, 2, 3, 4]) \<and> 3 \<in> set (elems store_13359 [0, 1, 2, 3, 4]) \<and>
   binarySearch store_13359 list_13359 3 = Inr True \<and>
   binarySearch store_13359 list_13359 4 = Inr False \<and>
   \<not> sortedL list_21 \<and> binarySearch store_21 list_21 1 = Inl LogicError"
proof -
  have w: "wf_list store_13359 list_13359 [0, 1, 2, 3, 4]"
    by (simp add: wf_list_def fwd_list_def store_13359_def list_13359_def)
  have f: "sortedL list_13359" "\<not> sortedL list_21"
    by (simp_all add: sortedL_def list_13359_def list_21_def)
  have e: "elems store_13359 [0, 1, 2, 3, 4] = [1, 3, 3, 5, 9]"
    by (simp add: elems_def val_def store_13359_def)
  from binarySearch_trusts_flag [of store_13359 list_13359 3 "[0, 1, 2, 3, 4]"]
    binarySearch_trusts_flag [of store_13359 list_13359 4 "[0, 1, 2, 3, 4]"]
    binarySearch_trusts_flag [of store_21 list_21 1 "[]"] w f
  show ?thesis unfolding e by auto
qed

subsection \<open>sort: the functional merge sort is the stable sort\<close>

lemma set_merge_f [simp]: "set (merge_f k xs ys) = set xs \<union> set ys"
  by (induction k xs ys rule: merge_f.induct) auto

lemma mset_merge_f [simp]: "mset (merge_f k xs ys) = mset xs + mset ys"
  by (induction k xs ys rule: merge_f.induct) auto

lemma length_merge_f [simp]: "length (merge_f k xs ys) = length xs + length ys"
  by (induction k xs ys rule: merge_f.induct) auto

lemma sorted_merge_f:
  "sorted (map k xs) \<Longrightarrow> sorted (map k ys) \<Longrightarrow> sorted (map k (merge_f k xs ys))"
  by (induction k xs ys rule: merge_f.induct) (auto simp: imp_conjL)

lemma filter_merge_f:
  "sorted (map k xs) \<Longrightarrow> sorted (map k ys) \<Longrightarrow>
   filter (\<lambda>a. c = k a) (merge_f k xs ys) = filter (\<lambda>a. c = k a) xs @ filter (\<lambda>a. c = k a) ys"
proof (induction k xs ys rule: merge_f.induct)
  case (3 k x xs y ys)
  define P where "P = (\<lambda>a. c = k a)"
  from "3.prems" have srt: "sorted (map k xs)" "sorted (map k ys)" by simp_all
  show ?case
  proof (cases "k x \<le> k y")
    case True
    from "3.IH"(1)[OF True srt(1) "3.prems"(2)]
    have "filter P (merge_f k xs (y # ys)) = filter P xs @ filter P (y # ys)"
      by (simp add: P_def)
    with True have "filter P (merge_f k (x # xs) (y # ys)) = filter P (x # xs) @ filter P (y # ys)"
      by simp
    then show ?thesis by (simp add: P_def)
  next
    case False
    from "3.IH"(2)[OF False "3.prems"(1) srt(2)]
    have IH: "filter P (merge_f k (x # xs) ys) = filter P (x # xs) @ filter P ys"
      by (simp add: P_def)
    from False "3.prems" have "\<forall>a\<in>set (x # xs). k y < k a" by auto
    then have "P y \<Longrightarrow> filter P (x # xs) = []"
      unfolding P_def filter_empty_conv by auto
    with False IH have "filter P (merge_f k (x # xs) (y # ys)) = filter P (x # xs) @ filter P (y # ys)"
      by (cases "P y") simp_all
    then show ?thesis by (simp add: P_def)
  qed
qed simp_all

lemma msort_f_props:
  "mset (msort_f k as) = mset as \<and> sorted (map k (msort_f k as)) \<and>
   filter (\<lambda>a. c = k a) (msort_f k as) = filter (\<lambda>a. c = k a) as"
proof (induction k as rule: msort_f.induct)
  case (1 k as)
  show ?case
  proof (cases "length as \<le> 1")
    case True
    then have "sorted (map k as)" by (cases as) auto
    with True show ?thesis by (subst (1 2 3) msort_f.simps) simp
  next
    case False
    let ?l = "take (length as div 2) as" and ?r = "drop (length as div 2) as"
    have s: "msort_f k as = merge_f k (msort_f k ?l) (msort_f k ?r)"
      using False by (subst msort_f.simps) simp
    have "mset ?l + mset ?r = mset as"
      by (metis append_take_drop_id mset_append)
    moreover have "filter (\<lambda>a. c = k a) ?l @ filter (\<lambda>a. c = k a) ?r = filter (\<lambda>a. c = k a) as"
      by (metis append_take_drop_id filter_append)
    ultimately show ?thesis
      unfolding s using "1.IH"[OF False] by (simp add: sorted_merge_f filter_merge_f)
  qed
qed

lemma msort_f_sort_key: "msort_f k as = sort_key k as"
proof (rule properties_for_sort_key [symmetric])
  show "mset (msort_f k as) = mset as" using msort_f_props[of k as] by simp
  show "sorted (map k (msort_f k as))" using msort_f_props[of k as] by simp
  show "\<And>a. a \<in> set (msort_f k as) \<Longrightarrow>
      filter (\<lambda>x. k a = k x) (msort_f k as) = filter (\<lambda>x. k a = k x) as"
    using msort_f_props[of k as] by simp
qed

subsection \<open>sort: stores that differ in links only\<close>

lemma links_changed_refl: "links_changed A s s"
  by (simp add: links_changed_def)

lemma links_changed_trans:
  "links_changed A s s' \<Longrightarrow> links_changed B s' s'' \<Longrightarrow> links_changed (A \<union> B) s s''"
  by (auto simp: links_changed_def)

lemma links_changed_mono: "links_changed A s s' \<Longrightarrow> A \<subseteq> B \<Longrightarrow> links_changed B s s'"
  by (auto simp: links_changed_def)

lemma links_changed_modify:
  assumes "heap s a = Some n" "data (f n) = data n" "a \<in> A"
  shows "links_changed A s (s\<lparr>heap := (heap s)(a \<mapsto> f n)\<rparr>)"
  using assms by (auto simp: links_changed_def val_def fun_eq_iff)

lemma path_frame:
  "path f h p as q \<Longrightarrow> \<forall>a\<in>set as. h' a = h a \<Longrightarrow> path f h' p as q"
  by (induction as arbitrary: p) (auto split: option.splits)

lemma path_links_changed:
  "path f (heap s) p as q \<Longrightarrow> links_changed A s s' \<Longrightarrow> A \<inter> set as = {} \<Longrightarrow>
   path f (heap s') p as q"
  by (rule path_frame) (auto simp: links_changed_def)

subsection \<open>sort: the merge sort on the node chain\<close>

lemma merge_nodes_path:
  "path nextp (heap s) l xs None \<Longrightarrow> path nextp (heap s) r ys None \<Longrightarrow> distinct (xs @ ys) \<Longrightarrow>
   \<exists>s' p. merge_nodes s l r = Some (Inr (s', p)) \<and>
      path nextp (heap s') p (merge_f (val s) xs ys) None \<and>
      links_changed (set xs \<union> set ys) s s'"
proof (induction "val s" xs ys arbitrary: l r rule: merge_f.induct)
  case (1 ys)
  then show ?case by (subst merge_nodes.simps) (auto simp: links_changed_refl)
next
  case (2 v va)
  then show ?case
    by (subst merge_nodes.simps) (auto simp: links_changed_refl split: option.splits)
next
  case (3 x xs y ys)
  from "3.prems" obtain ln rn where
    l: "l = Some x" "heap s x = Some ln" "path nextp (heap s) (nextp ln) xs None" and
    r: "r = Some y" "heap s y = Some rn" "path nextp (heap s) (nextp rn) ys None"
    by (auto split: option.splits)
  have k: "val s x = data ln" "val s y = data rn" using l r by (simp_all add: val_def)
  show ?case
  proof (cases "data ln \<le> data rn")
    case True
    from "3.prems" have d: "distinct (xs @ y # ys)" by auto
    from "3.hyps"(1)[OF _ l(3) "3.prems"(2) d] True k obtain s' p where
      rec: "merge_nodes s (nextp ln) r = Some (Inr (s', p))"
        and pa: "path nextp (heap s') p (merge_f (val s) xs (y # ys)) None"
        and lc: "links_changed (set xs \<union> set (y # ys)) s s'"
      by auto
    from "3.prems" have nx: "x \<notin> set xs \<union> set (y # ys)" by auto
    with lc l have hx: "heap s' x = Some ln" by (auto simp: links_changed_def)
    let ?s2 = "s'\<lparr>heap := (heap s')(x \<mapsto> ln\<lparr>nextp := p\<rparr>)\<rparr>"
    have m: "merge_nodes s l r = Some (Inr (?s2, Some x))"
      using l r True rec hx by (subst merge_nodes.simps) (simp add: modify_def)
    have "path nextp (heap ?s2) p (merge_f (val s) xs (y # ys)) None"
      using pa nx by (simp add: path_upd_other)
    then have p2: "path nextp (heap ?s2) (Some x) (merge_f (val s) (x # xs) (y # ys)) None"
      using True k by simp
    have "links_changed (set (x # xs) \<union> set (y # ys)) s' ?s2"
      by (rule links_changed_modify[OF hx]) simp_all
    from links_changed_trans[OF lc this]
    have "links_changed (set (x # xs) \<union> set (y # ys)) s ?s2"
      by (rule links_changed_mono) auto
    with m p2 show ?thesis by blast
  next
    case False
    from "3.prems" have d: "distinct ((x # xs) @ ys)" by auto
    from "3.hyps"(2)[OF _ "3.prems"(1) r(3) d] False k obtain s' p where
      rec: "merge_nodes s l (nextp rn) = Some (Inr (s', p))"
        and pa: "path nextp (heap s') p (merge_f (val s) (x # xs) ys) None"
        and lc: "links_changed (set (x # xs) \<union> set ys) s s'"
      by auto
    from "3.prems" have ny: "y \<notin> set (x # xs) \<union> set ys" by auto
    with lc r have hy: "heap s' y = Some rn" by (auto simp: links_changed_def)
    let ?s2 = "s'\<lparr>heap := (heap s')(y \<mapsto> rn\<lparr>nextp := p\<rparr>)\<rparr>"
    have m: "merge_nodes s l r = Some (Inr (?s2, Some y))"
      using l r False rec hy by (subst merge_nodes.simps) (simp add: modify_def)
    have "path nextp (heap ?s2) p (merge_f (val s) (x # xs) ys) None"
      using pa ny by (simp add: path_upd_other)
    then have p2: "path nextp (heap ?s2) (Some y) (merge_f (val s) (x # xs) (y # ys)) None"
      using False k by simp
    have "links_changed (set (x # xs) \<union> set (y # ys)) s' ?s2"
      by (rule links_changed_modify[OF hy]) simp_all
    from links_changed_trans[OF lc this]
    have "links_changed (set (x # xs) \<union> set (y # ys)) s ?s2"
      by (rule links_changed_mono) auto
    with m p2 show ?thesis by blast
  qed
qed

lemma mergeSort_split_path:
  "path nextp (heap s) fast fs None \<Longrightarrow> path nextp (heap s) slow ss None \<Longrightarrow>
   length fs \<le> length ss \<Longrightarrow>
   mergeSort_split s slow fast prev =
     Some (Inr (if length fs div 2 = 0 then prev else Some (ss ! (length fs div 2 - 1)),
                ptr_at ss (length fs div 2)))"
proof (induction fs arbitrary: fast slow ss prev rule: induct_list012)
  case 1
  then show ?case
    by (subst mergeSort_split.simps) (cases ss; auto simp: ptr_at_def split: option.splits)
next
  case (2 x)
  then show ?case
    by (subst mergeSort_split.simps) (cases ss; auto simp: ptr_at_def split: option.splits)
next
  case (3 x y zs)
  from "3.prems"(1) obtain fn fm where
    f: "fast = Some x" "heap s x = Some fn" "nextp fn = Some y" "heap s y = Some fm"
       "path nextp (heap s) (nextp fm) zs None"
    by (auto split: option.splits)
  from "3.prems"(2,3) obtain a ss' sn where
    sl: "ss = a # ss'" "slow = Some a" "heap s a = Some sn" "path nextp (heap s) (nextp sn) ss' None"
    by (cases ss) (auto split: option.splits)
  from "3.prems"(3) sl have len: "length zs \<le> length ss'" by simp
  have step: "mergeSort_split s slow fast prev = mergeSort_split s (nextp sn) (nextp fm) slow"
    using f sl by (subst mergeSort_split.simps) (simp add: deref_def)
  have j: "length (x # y # zs) div 2 = Suc (length zs div 2)" by simp
  show ?case
    unfolding step "3.IH"(1)[OF f(5) sl(4) len] j using sl
    by (auto simp: ptr_at_def)
qed

lemma sort_key_halves:
  "1 < length as \<Longrightarrow>
   sort_key k as = merge_f k (sort_key k (take (length as div 2) as))
                             (sort_key k (drop (length as div 2) as))"
  using msort_f.simps[of k as] by (simp add: msort_f_sort_key)

lemma last_take_nth: "0 < h \<Longrightarrow> h \<le> length as \<Longrightarrow> last (take h as) = as ! (h - 1)"
proof -
  assume h: "0 < h" "h \<le> length as"
  then have "take h as \<noteq> []" by auto
  then have "last (take h as) = take h as ! (length (take h as) - 1)" by (rule last_conv_nth)
  also have "\<dots> = take h as ! (h - 1)" using h by (simp add: min_def)
  also have "\<dots> = as ! (h - 1)" using h by (intro nth_take) simp
  finally show ?thesis .
qed

lemma path_cut:
  assumes "path nextp (heap s) p (ls @ rs) None" "distinct (ls @ rs)" "ls \<noteq> []" "rs \<noteq> []"
  shows "\<exists>n. heap s (last ls) = Some n \<and>
     path nextp ((heap s)(last ls \<mapsto> n\<lparr>nextp := None\<rparr>)) p ls None \<and>
     path nextp ((heap s)(last ls \<mapsto> n\<lparr>nextp := None\<rparr>)) (Some (hd rs)) rs None"
proof -
  from assms(3) obtain ls' a where ls: "ls = ls' @ [a]" by (cases ls rule: rev_cases) auto
  from assms(1) obtain q where q: "path nextp (heap s) p ls q" "path nextp (heap s) q rs None"
    unfolding path_append by blast
  from q(2) assms(4) have qh: "q = Some (hd rs)" by (cases rs) auto
  from q(1) ls obtain n where n: "path nextp (heap s) p ls' (Some a)" "heap s a = Some n"
    by (auto simp: path_snoc)
  from assms(2) ls have d: "a \<notin> set ls'" "a \<notin> set rs" by auto
  have "path nextp ((heap s)(a \<mapsto> n\<lparr>nextp := None\<rparr>)) p (ls' @ [a]) None"
    unfolding path_snoc using n d by (simp add: path_upd_other)
  moreover have "path nextp ((heap s)(a \<mapsto> n\<lparr>nextp := None\<rparr>)) (Some (hd rs)) rs None"
    using q(2) qh d by (simp add: path_upd_other)
  ultimately show ?thesis using n ls by simp
qed

lemma mergeSort_path:
  "path nextp (heap s) p as None \<Longrightarrow> distinct as \<Longrightarrow>
   \<exists>s' p'. mergeSort s p = Some (Inr (s', p')) \<and>
      path nextp (heap s') p' (sort_key (val s) as) None \<and>
      links_changed (set as) s s'"
proof (induction as arbitrary: s p rule: length_induct)
  case (1 as)
  consider "as = []" | a where "as = [a]" | "1 < length as"
    by (cases as; cases "tl as") auto
  then show ?case
  proof cases
    case 1
    with "1.prems" show ?thesis
      by (subst mergeSort.simps) (auto simp: links_changed_refl)
  next
    case 2
    with "1.prems" show ?thesis
      by (subst mergeSort.simps) (auto simp: links_changed_refl split: option.splits)
  next
    case 3
    let ?h = "length as div 2"
    let ?L = "take ?h as" and ?R = "drop ?h as"
    from 3 have h: "0 < ?h" "?h < length as" by auto
    then have ne: "?L \<noteq> []" "?R \<noteq> []" by auto
    from h have lenL: "length ?L < length as" and lenR: "length ?R < length as" by auto
    have lr: "?L @ ?R = as" by simp
    from "1.prems"(2) have dLR: "distinct (?L @ ?R)" by simp
    then have dis: "distinct ?L" "distinct ?R" "set ?L \<inter> set ?R = {}"
      unfolding distinct_append by blast+
    from 3 "1.prems"(1) obtain a hn b where
      hd: "p = Some a" "heap s a = Some hn" "nextp hn = Some b"
      by (cases as; cases "tl as") (auto split: option.splits)
    have lastL: "last ?L = as ! (?h - 1)"
      using h by (intro last_take_nth) simp_all
    have hdR: "hd ?R = as ! ?h"
      using h by (simp add: hd_drop_conv_nth)
    have split: "mergeSort_split s p p None = Some (Inr (Some (last ?L), Some (hd ?R)))"
      using mergeSort_split_path[OF "1.prems"(1) "1.prems"(1), of None] h lastL hdR
      by (simp add: ptr_at_def)
    from path_cut[of s p ?L ?R] "1.prems" ne obtain n where
      n: "heap s (last ?L) = Some n" and
      pL: "path nextp ((heap s)(last ?L \<mapsto> n\<lparr>nextp := None\<rparr>)) p ?L None" and
      pR: "path nextp ((heap s)(last ?L \<mapsto> n\<lparr>nextp := None\<rparr>)) (Some (hd ?R)) ?R None"
      by auto
    let ?s1 = "s\<lparr>heap := (heap s)(last ?L \<mapsto> n\<lparr>nextp := None\<rparr>)\<rparr>"
    have m1: "modify (Some (last ?L)) (\<lambda>n. n\<lparr>nextp := None\<rparr>) s = Inr ?s1"
      using n by (simp add: modify_def)
    have inL: "last ?L \<in> set as"
      using ne(1) by (metis in_set_takeD last_in_set)
    have lc1: "links_changed (set as) s ?s1"
      by (rule links_changed_modify[OF n]) (simp_all add: inL)
    then have v1: "val ?s1 = val s" by (simp add: links_changed_def)
    from "1.IH"[rule_format, OF lenL, of ?s1 p] pL dis(1) obtain s2 left where
      r1: "mergeSort ?s1 p = Some (Inr (s2, left))" and
      p2: "path nextp (heap s2) left (sort_key (val ?s1) ?L) None" and
      lc2: "links_changed (set ?L) ?s1 s2"
      by auto
    from lc2 have v2: "val s2 = val ?s1" by (simp add: links_changed_def)
    have pR2: "path nextp (heap s2) (Some (hd ?R)) ?R None"
      using path_links_changed[OF _ lc2 dis(3)] pR by simp
    from "1.IH"[rule_format, OF lenR pR2 dis(2)] obtain s3 right where
      r2: "mergeSort s2 (Some (hd ?R)) = Some (Inr (s3, right))" and
      p3: "path nextp (heap s3) right (sort_key (val s2) ?R) None" and
      lc3: "links_changed (set ?R) s2 s3"
      by auto
    from lc3 have v3: "val s3 = val s2" by (simp add: links_changed_def)
    have pL3: "path nextp (heap s3) left (sort_key (val s) ?L) None"
      using path_links_changed[OF p2 lc3] dis(3) v1 by (simp add: Int_commute)
    have pR3: "path nextp (heap s3) right (sort_key (val s) ?R) None"
      using p3 v2 v1 by simp
    have d3: "distinct (sort_key (val s) ?L @ sort_key (val s) ?R)"
      using dis by simp
    from merge_nodes_path[OF pL3 pR3 d3] obtain s4 p4 where
      r3: "merge_nodes s3 left right = Some (Inr (s4, p4))" and
      p4: "path nextp (heap s4) p4
             (merge_f (val s3) (sort_key (val s) ?L) (sort_key (val s) ?R)) None" and
      lc4: "links_changed (set (sort_key (val s) ?L) \<union> set (sort_key (val s) ?R)) s3 s4"
      by blast
    have res: "mergeSort s p = Some (Inr (s4, p4))"
      using hd split m1 r1 r2 r3 by (subst mergeSort.simps) simp
    have "path nextp (heap s4) p4 (sort_key (val s) as) None"
      using p4 sort_key_halves[OF 3, of "val s"] v3 v2 v1 by simp
    moreover have "links_changed (set as) s s4"
    proof -
      have sub: "set ?L \<subseteq> set as" "set ?R \<subseteq> set as"
        by (auto dest: in_set_takeD in_set_dropD)
      from links_changed_trans[OF lc1 lc2] sub have "links_changed (set as) s s2"
        by (auto elim: links_changed_mono)
      from links_changed_trans[OF this lc3] sub have "links_changed (set as) s s3"
        by (auto elim: links_changed_mono)
      from links_changed_trans[OF this lc4] sub show ?thesis
        by (auto elim!: links_changed_mono)
    qed
    ultimately show ?thesis using res by blast
  qed
qed

lemma sort_relink_path:
  "path nextp (heap s) (Some b) (b # bs) None \<Longrightarrow> distinct (b # bs) \<Longrightarrow>
   \<exists>s'. sort_relink s (Some b) t = Some (Inr (s', if bs = [] then t else Some (last bs))) \<and>
      path nextp (heap s') (Some b) (b # bs) None \<and>
      path prevp (heap s') (if bs = [] then Some b else Some (last bs)) (rev bs) (Some b) \<and>
      links_changed (set bs) s s'"
proof (induction bs arbitrary: s b t)
  case Nil
  then show ?case
    by (subst sort_relink.simps) (auto simp: deref_def links_changed_refl split: option.splits)
next
  case (Cons c cs)
  from Cons.prems obtain bn cn where
    b: "heap s b = Some bn" "nextp bn = Some c" and
    c: "heap s c = Some cn" "path nextp (heap s) (nextp cn) cs None"
    by (auto split: option.splits)
  let ?s1 = "s\<lparr>heap := (heap s)(c \<mapsto> cn\<lparr>prevp := Some b\<rparr>)\<rparr>"
  from Cons.prems have d: "b \<noteq> c" "b \<notin> set cs" "c \<notin> set cs" "distinct cs" by auto
  have step: "sort_relink s (Some b) t = sort_relink ?s1 (Some c) (Some c)"
    using b c by (subst sort_relink.simps) (simp add: deref_def modify_def)
  have pc: "path nextp (heap ?s1) (Some c) (c # cs) None"
    using c d by (simp add: path_upd_other)
  have lc1: "links_changed (set (c # cs)) s ?s1"
    by (rule links_changed_modify[OF c(1)]) simp_all
  from Cons.IH[OF pc, of "Some c"] d obtain s' where
    r: "sort_relink ?s1 (Some c) (Some c) = Some (Inr (s', if cs = [] then Some c else Some (last cs)))" and
    pn: "path nextp (heap s') (Some c) (c # cs) None" and
    pp: "path prevp (heap s') (if cs = [] then Some c else Some (last cs)) (rev cs) (Some c)" and
    lc2: "links_changed (set cs) ?s1 s'"
    by auto
  from lc2 d have hc: "heap s' c = Some (cn\<lparr>prevp := Some b\<rparr>)" and hb: "heap s' b = Some bn"
    using b by (auto simp: links_changed_def)
  have 1: "path nextp (heap s') (Some b) (b # c # cs) None"
    using pn hb b by simp
  have 2: "path prevp (heap s') (Some (last (c # cs))) (rev (c # cs)) (Some b)"
    using pp hc by (auto simp: path_snoc)
  have 3: "links_changed (set (c # cs)) s s'"
    using links_changed_trans[OF lc1 lc2] by (rule links_changed_mono) auto
  from 1 2 3 r show ?case unfolding step by auto
qed

lemma isSortedCheck_loop_path:
  "path nextp (heap s) p as None \<Longrightarrow> as \<noteq> [] \<Longrightarrow>
   isSortedCheck_loop s p = Some (Inr (sorted (elems s as)))"
proof (induction as arbitrary: p rule: induct_list012)
  case 1
  then show ?case by simp
next
  case (2 a)
  then show ?case
    by (subst isSortedCheck_loop.simps) (auto simp: deref_def elems_def split: option.splits)
next
  case (3 a b cs)
  from "3.prems" obtain an bn where
    n: "p = Some a" "heap s a = Some an" "nextp an = Some b" "heap s b = Some bn"
       "path nextp (heap s) (Some b) (b # cs) None"
    by (auto split: option.splits)
  from "3.IH"(2)[OF n(5)] have "isSortedCheck_loop s (Some b) = Some (Inr (sorted (elems s (b # cs))))"
    by simp
  with n show ?case
    by (subst isSortedCheck_loop.simps) (auto simp: deref_def elems_def val_def)
qed

lemma isSortedCheck_fwd:
  assumes "fwd_list s l as"
  shows "isSortedCheck s l = Some (Inr (sorted (elems s as)))"
proof (cases "length as \<le> 1")
  case True
  then have "sorted (elems s as)" by (cases as) (auto simp: elems_def)
  with True assms show ?thesis by (simp add: isSortedCheck_def fwd_list_def)
next
  case False
  then have "as \<noteq> []" by auto
  with False assms isSortedCheck_loop_path[of s "headNode l" as] show ?thesis
    by (simp add: isSortedCheck_def fwd_list_def)
qed

lemma sortL_fwd:
  assumes "fwd_list s l as" "1 < length as"
  shows "\<exists>s' l'. sortL s l = Some (Inr (s', l')) \<and> wf_list s' l' (sort_key (val s) as) \<and>
           isSorted l' \<and> links_changed (set as) s s'"
proof -
  from assms have f: "path nextp (heap s) (headNode l) as None" and d: "distinct as"
    and n: "listSize l = length as" and fr: "list_all (\<lambda>a. a < fresh s) as"
    by (auto simp: fwd_list_def)
  let ?bs = "sort_key (val s) as"
  from mergeSort_path[OF f d] obtain s1 h where
    m: "mergeSort s (headNode l) = Some (Inr (s1, h))" and
    p1: "path nextp (heap s1) h ?bs None" and
    lc1: "links_changed (set as) s s1"
    by blast
  from assms(2) have "?bs \<noteq> []" by (metis length_sort list.size(3) not_less_zero)
  then obtain b bs where bs: "?bs = b # bs" by (cases ?bs) auto
  with p1 obtain bn where b: "h = Some b" "heap s1 b = Some bn" by (auto split: option.splits)
  have dbs: "distinct (b # bs)" using d bs by (metis distinct_sort)
  have sub: "set (b # bs) = set as" using bs by (metis set_sort)
  let ?s2 = "s1\<lparr>heap := (heap s1)(b \<mapsto> bn\<lparr>prevp := None\<rparr>)\<rparr>"
  have m2: "modify h (\<lambda>n. n\<lparr>prevp := None\<rparr>) s1 = Inr ?s2"
    using b by (simp add: modify_def)
  have lc2: "links_changed (set as) s1 ?s2"
    by (rule links_changed_modify[OF b(2)]) (use sub in auto)
  have p2: "path nextp (heap ?s2) (Some b) (b # bs) None"
    using p1 bs b path_upd_field[of "heap s1" b bn nextp "bn\<lparr>prevp := None\<rparr>" h "b # bs" None]
    by simp
  from sort_relink_path[OF p2 dbs, of h] obtain s3 where
    r: "sort_relink ?s2 (Some b) h = Some (Inr (s3, if bs = [] then h else Some (last bs)))" and
    pn: "path nextp (heap s3) (Some b) (b # bs) None" and
    pp: "path prevp (heap s3) (if bs = [] then Some b else Some (last bs)) (rev bs) (Some b)" and
    lc3: "links_changed (set bs) ?s2 s3"
    by blast
  from lc3 dbs have hb: "heap s3 b = Some (bn\<lparr>prevp := None\<rparr>)"
    by (auto simp: links_changed_def)
  let ?t = "if bs = [] then h else Some (last bs)"
  let ?l' = "l\<lparr>headNode := h, tailNode := ?t, isSorted := True\<rparr>"
  have res: "sortL s l = Some (Inr (s3, ?l'))"
    using assms(2) n m m2 r b by (simp add: sortL_def bindO_def Let_def)
  have bw: "path prevp (heap s3) ?t (rev (b # bs)) None"
    using pp hb b by (auto simp: path_snoc)
  have lc: "links_changed (set as) s s3"
  proof -
    from links_changed_trans[OF lc1 lc2] have "links_changed (set as) s ?s2" by simp
    from links_changed_trans[OF this lc3] sub show ?thesis
      by (auto elim!: links_changed_mono)
  qed
  have "wf_list s3 ?l' ?bs"
    unfolding wf_list_def fwd_list_def bs using bw pn dbs n b fr lc sub bs
    by (auto simp: list_all_iff links_changed_def dest: arg_cong[where f=length])
  with res lc show ?thesis by auto
qed

lemmas sort_defs = sortL_def mergeSort.simps mergeSort_split.simps merge_nodes.simps
  sort_relink.simps toVector_def toVector_loop.simps checkIntegrity_def
  checkIntegrity_forward.simps checkIntegrity_backward.simps checkIntegrity_links.simps sortedL_def

lemma sort_examples:
  "sort_test [3, 1, 2] = Some (Inr ([1, 2, 3], True, True)) \<and>
   sort_test [5, 3, 1, 4, 2, 1] = Some (Inr ([1, 1, 2, 3, 4, 5], True, True))"
  unfolding sort_test_def by (simp add: run_defs sort_defs)

lemma sortL_wf:
  assumes "wf_list s l as"
  shows "\<exists>s' l'. sortL s l = Some (Inr (s', l')) \<and> wf_list s' l' (sort_key (val s) as) \<and>
           isSorted l' \<and> links_changed (set as) s s'"
proof (cases "1 < length as")
  case True
  with assms sortL_fwd[of s l as] show ?thesis by (simp add: wf_list_def)
next
  case False
  then have "sort_key (val s) as = as" by (cases as) auto
  with False assms show ?thesis
    by (auto simp: sortL_def wf_list_def fwd_list_def links_changed_refl)
qed

lemma elems_sort_key: "elems s (sort_key (val s) as) = sort (elems s as)"
  unfolding elems_def
proof (rule properties_for_sort [symmetric])
  have "mset (map (val s) (sort_key (val s) as)) = image_mset (val s) (mset (sort_key (val s) as))"
    by (rule mset_map)
  then show "mset (map (val s) (sort_key (val s) as)) = mset (map (val s) as)"
    by simp
  show "sorted (map (val s) (sort_key (val s) as))" by simp
qed

text \<open>
  Claim C1. On every well-formed list \<open>sort()\<close> returns with the sorted flag true;
  \<open>isSortedCheck()\<close> then returns true, and the element sequence is a non-decreasing
  permutation of the original one. The nodes themselves are relinked in the order of
  the stable sort of the original chain by element (\<open>sort_key\<close>): nodes with equal
  elements keep their relative order, which is what preferring the left node on a tie
  amounts to. No element is changed, and the list is well-formed again.
\<close>

theorem sort_sorts:
  assumes "wf_list s l as"
  shows "\<exists>s' l'. sortL s l = Some (Inr (s', l')) \<and> sortedL l' \<and>
           isSortedCheck s' l' = Some (Inr True) \<and>
           (\<exists>ys. toVector s' l' = Some (Inr ys) \<and> mset ys = mset (elems s as) \<and> sorted ys) \<and>
           wf_list s' l' (sort_key (val s) as) \<and> val s' = val s \<and>
           (\<forall>c. filter (\<lambda>a. val s a = c) (sort_key (val s) as) = filter (\<lambda>a. val s a = c) as)"
proof -
  from sortL_wf[OF assms] obtain s' l' where
    r: "sortL s l = Some (Inr (s', l'))" and w: "wf_list s' l' (sort_key (val s) as)" and
    f: "isSorted l'" and lc: "links_changed (set as) s s'"
    by blast
  from lc have v: "val s' = val s" by (simp add: links_changed_def)
  from w have fw: "fwd_list s' l' (sort_key (val s) as)" by (simp add: wf_list_def)
  have e: "elems s' (sort_key (val s) as) = sort (elems s as)"
    using elems_sort_key[of s as] by (simp add: elems_def v)
  have 1: "isSortedCheck s' l' = Some (Inr True)"
    using isSortedCheck_fwd[OF fw] e by simp
  have 2: "toVector s' l' = Some (Inr (sort (elems s as)))"
    using toVector_fwd[OF fw] e by simp
  from r f w v 1 2 show ?thesis
    by (auto simp: sortedL_def sort_key_stable)
qed

theorem sort_sorts_witness:
  "wf_list store_212 list_212 [0, 1, 2] \<and>
   (\<exists>s' l'. sortL store_212 list_212 = Some (Inr (s', l')) \<and> sortedL l' \<and>
      isSortedCheck s' l' = Some (Inr True) \<and>
      (\<exists>ys. toVector s' l' = Some (Inr ys) \<and> mset ys = mset [2, 1, 2] \<and> sorted ys) \<and>
      wf_list s' l' [1, 0, 2])"
proof -
  have w: "wf_list store_212 list_212 [0, 1, 2]"
    by (simp add: wf_list_def fwd_list_def store_212_def list_212_def)
  have k: "sort_key (val store_212) [0, 1, 2] = [1, 0, 2]"
    by (simp add: val_def store_212_def)
  have e: "elems store_212 [0, 1, 2] = [2, 1, 2]"
    by (simp add: elems_def val_def store_212_def)
  from sort_sorts [OF w] w show ?thesis unfolding k e by blast
qed

subsection \<open>sort with a comparator\<close>

lemma path_same_links:
  "path f h p as q \<Longrightarrow> \<forall>a\<in>set as. map_option f (h' a) = map_option f (h a) \<Longrightarrow>
   path f h' p as q"
proof (induction as arbitrary: p)
  case Nil
  then show ?case by simp
next
  case (Cons a as)
  then obtain n where n: "p = Some a" "h a = Some n" "path f h (f n) as q"
    by (auto split: option.splits)
  from Cons.prems(2) n obtain n' where n': "h' a = Some n'" "f n' = f n"
    by (cases "h' a") auto
  with n Cons show ?case by auto
qed

lemma write_back_path:
  "path nextp (heap s) p as None \<Longrightarrow> distinct as \<Longrightarrow> length xs = length as \<Longrightarrow>
   \<exists>s'. write_back xs s p = Inr s' \<and> fresh s' = fresh s \<and> elems s' as = xs \<and>
     (\<forall>a. map_option nextp (heap s' a) = map_option nextp (heap s a)) \<and>
     (\<forall>a. map_option prevp (heap s' a) = map_option prevp (heap s a)) \<and>
     (\<forall>a. a \<notin> set as \<longrightarrow> heap s' a = heap s a)"
proof (induction as arbitrary: xs s p)
  case Nil
  then show ?case by (simp add: elems_def)
next
  case (Cons a as)
  from Cons.prems(3) obtain x xs' where xs: "xs = x # xs'" "length xs' = length as"
    by (cases xs) auto
  from Cons.prems(1) obtain n where n: "p = Some a" "heap s a = Some n"
    "path nextp (heap s) (nextp n) as None"
    by (auto split: option.splits)
  let ?s1 = "s\<lparr>heap := (heap s)(a \<mapsto> n\<lparr>data := x\<rparr>)\<rparr>"
  from Cons.prems(2) have d: "a \<notin> set as" "distinct as" by auto
  have p1: "path nextp (heap ?s1) (nextp n) as None"
    using n d by (simp add: path_upd_other)
  from Cons.IH[OF p1 d(2) xs(2)] obtain s' where
    r: "write_back xs' ?s1 (nextp n) = Inr s'" "fresh s' = fresh ?s1" "elems s' as = xs'"
       "\<forall>b. map_option nextp (heap s' b) = map_option nextp (heap ?s1 b)"
       "\<forall>b. map_option prevp (heap s' b) = map_option prevp (heap ?s1 b)"
       "\<forall>b. b \<notin> set as \<longrightarrow> heap s' b = heap ?s1 b"
    by blast
  have w: "write_back xs s p = Inr s'"
    using n xs r(1) by (simp add: modify_def deref_def)
  from r(6) d have "heap s' a = Some (n\<lparr>data := x\<rparr>)" by simp
  then have e: "elems s' (a # as) = xs"
    using r(3) xs by (simp add: elems_def val_def)
  from r n have l: "\<forall>b. map_option nextp (heap s' b) = map_option nextp (heap s b)"
    "\<forall>b. map_option prevp (heap s' b) = map_option prevp (heap s b)"
    "\<forall>b. b \<notin> set (a # as) \<longrightarrow> heap s' b = heap s b"
    by auto
  from w r(2) e l show ?case by auto
qed

lemma sort_cmp_wf:
  assumes "wf_list s l as" "length (std_sort comparator (elems s as)) = length as"
  shows "\<exists>s' l'. sort_cmp std_sort comparator s l = Some (Inr (s', l')) \<and> \<not> isSorted l' \<and>
     wf_list s' l' as \<and>
     elems s' as = (if listSize l \<le> 1 then elems s as else std_sort comparator (elems s as))"
proof (cases "listSize l \<le> 1")
  case True
  with assms(1) show ?thesis by (simp add: sort_cmp_def wf_list_def fwd_list_def)
next
  case False
  from assms(1) have f: "path nextp (heap s) (headNode l) as None" and d: "distinct as"
    and b: "path prevp (heap s) (tailNode l) (rev as) None"
    and n: "listSize l = length as" and fr: "list_all (\<lambda>a. a < fresh s) as"
    by (auto simp: wf_list_def fwd_list_def)
  have t: "toVector_loop s (headNode l) [] = Some (Inr (elems s as))"
    using toVector_loop_path[OF f, of "[]"] by simp
  from write_back_path[OF f d assms(2)] obtain s' where
    r: "write_back (std_sort comparator (elems s as)) s (headNode l) = Inr s'" "fresh s' = fresh s"
       "elems s' as = std_sort comparator (elems s as)"
       "\<forall>a. map_option nextp (heap s' a) = map_option nextp (heap s a)"
       "\<forall>a. map_option prevp (heap s' a) = map_option prevp (heap s a)"
    by blast
  have 1: "path nextp (heap s') (headNode l) as None"
    using path_same_links[OF f] r(4) by simp
  have 2: "path prevp (heap s') (tailNode l) (rev as) None"
    using path_same_links[OF b] r(5) by simp
  have "sort_cmp std_sort comparator s l = Some (Inr (s', l\<lparr>isSorted := False\<rparr>))"
    using False t r(1) by (simp add: sort_cmp_def bindO_def)
  moreover have "wf_list s' (l\<lparr>isSorted := False\<rparr>) as"
    using 1 2 d n fr r(2) by (simp add: wf_list_def fwd_list_def)
  ultimately show ?thesis using r(3) False by simp
qed

text \<open>
  Claim C8. Let \<open>std::sort\<close> do its part on the buffer of this list's elements: the
  buffer it leaves is a permutation of the one it got, and no element precedes one that
  the comparator puts before it. Then on every well-formed list \<open>sort(comparator)\<close>
  returns with the sorted flag false, for size 0 and 1 as well, keeps the size and the
  multiset of elements, and for size above 1 the element sequence is the sorted buffer,
  ordered consistently with the comparator.
\<close>

theorem sort_cmp_clears_flag:
  assumes "wf_list s l as"
    and "mset (std_sort comparator (elems s as)) = mset (elems s as)"
    and "sorted_wrt (\<lambda>x y. \<not> comparator y x) (std_sort comparator (elems s as))"
  shows "\<exists>s' l'. sort_cmp std_sort comparator s l = Some (Inr (s', l')) \<and> \<not> sortedL l' \<and>
     sizeL l' = sizeL l \<and>
     (\<exists>ys. toVector s' l' = Some (Inr ys) \<and> mset ys = mset (elems s as) \<and>
           (1 < sizeL l \<longrightarrow> ys = std_sort comparator (elems s as) \<and>
                                sorted_wrt (\<lambda>x y. \<not> comparator y x) ys))"
proof -
  from assms(2) have "length (std_sort comparator (elems s as)) = length (elems s as)"
    by (rule mset_eq_length)
  then have len: "length (std_sort comparator (elems s as)) = length as"
    by (simp add: elems_def)
  from sort_cmp_wf[of s l as std_sort comparator, OF assms(1) len] obtain s' l' where
    r: "sort_cmp std_sort comparator s l = Some (Inr (s', l'))" "\<not> isSorted l'"
       "wf_list s' l' as"
       "elems s' as = (if listSize l \<le> 1 then elems s as else std_sort comparator (elems s as))"
    by blast
  from r(3) have t: "toVector s' l' = Some (Inr (elems s' as))"
    by (simp add: wf_list_def toVector_fwd)
  from r(3) assms(1) have sz: "listSize l' = listSize l" by (simp add: wf_list_def fwd_list_def)
  show ?thesis
    using r(1,2) t sz r(4) assms(2,3) by (auto simp: sortedL_def sizeL_def)
qed

theorem sort_cmp_clears_flag_witness:
  "wf_list store_12 list_12 [0, 1] \<and>
   mset (sort_by (>) (elems store_12 [0, 1])) = mset (elems store_12 [0, 1]) \<and>
   sorted_wrt (\<lambda>x y. \<not> y > x) (sort_by (>) (elems store_12 [0, 1])) \<and>
   sortedL list_12 \<and>
   (\<exists>s' l'. sort_cmp sort_by (>) store_12 list_12 = Some (Inr (s', l')) \<and> \<not> sortedL l' \<and>
      toVector s' l' = Some (Inr [2, 1]))"
proof -
  have w: "wf_list store_12 list_12 [0, 1]"
    by (simp add: wf_list_def fwd_list_def store_12_def list_12_def)
  have e: "elems store_12 [0, 1] = [1, 2]"
    by (simp add: elems_def val_def store_12_def)
  have m: "mset (sort_by (>) (elems store_12 [0, 1])) = mset (elems store_12 [0, 1])"
    unfolding e by simp
  have o: "sorted_wrt (\<lambda>x y. \<not> y > x) (sort_by (>) (elems store_12 [0, 1]))"
    unfolding e by simp
  have z: "1 < sizeL list_12" "sortedL list_12" by (simp_all add: sizeL_def sortedL_def list_12_def)
  have v: "sort_by (>) [1, 2 :: int] = [2, 1]" by simp
  from sort_cmp_clears_flag [of store_12 list_12 "[0, 1]" sort_by "(>)", OF w m o] w m o z show ?thesis
    unfolding e v by auto
qed

subsection \<open>insertSorted\<close>

lemma insertSorted_examples:
  "insertSorted_test [2, 4, 6] 5 = Some (Inr ([2, 4, 5, 6], True, True)) \<and>
   insertSorted_test [6, 2, 4] 5 = Some (Inr ([2, 4, 5, 6], True, True)) \<and>
   insertSorted_test [2, 4, 6] 1 = Some (Inr ([1, 2, 4, 6], True, True)) \<and>
   insertSorted_test [2, 4, 6] 6 = Some (Inr ([2, 4, 6, 6], True, True))"
  unfolding insertSorted_test_def
  by (simp add: run_defs sort_defs insertSorted_def insertSorted_scan.simps)

lemma insertSorted_scan_path:
  "path nextp (heap s) p as None \<Longrightarrow>
   insertSorted_scan s v p =
     Some (Inr (case dropWhile (\<lambda>a. val s a < v) as of [] \<Rightarrow> None | c # R \<Rightarrow> Some c))"
proof (induction as arbitrary: p)
  case Nil
  then show ?case by (subst insertSorted_scan.simps) simp
next
  case (Cons a as)
  then show ?case
    by (subst insertSorted_scan.simps) (auto simp: val_def split: option.splits)
qed

lemma insert_middle:
  assumes w: "wf_list s l (L @ b # c # R)" and f: "isSorted l"
    and scan: "insertSorted_scan s v (headNode l) = Some (Inr (Some c))"
    and lo: "val s (hd (L @ [b])) < v" and hi: "v < val s (last (c # R))"
  shows "\<exists>s' l'. insertSorted v s l = Some (Inr (s', l')) \<and>
     wf_list s' l' (L @ b # fresh s # c # R) \<and> isSorted l' \<and>
     elems s' (L @ b # fresh s # c # R) = elems s (L @ [b]) @ v # elems s (c # R)"
proof -
  let ?as = "L @ b # c # R"
  from w have fp: "path nextp (heap s) (headNode l) ?as None"
    and bp: "path prevp (heap s) (tailNode l) (rev ?as) None"
    and d: "distinct ?as" and n: "listSize l = length ?as"
    and fr: "list_all (\<lambda>a. a < fresh s) ?as"
    by (auto simp: wf_list_def fwd_list_def)
  from path_alloc[OF fp, of b] path_alloc[OF fp, of c] obtain bn cn where
    a: "heap s b = Some bn" "heap s c = Some cn" by auto
  from prev_of_successor[OF bp, of L b c R] a have pc: "prevp cn = Some b" by simp
  have hd: "headNode l = Some (hd (L @ [b]))" using fp by (cases L) auto
  have tl: "tailNode l = Some (last (c # R))" using bp by (cases R rule: rev_cases) auto
  from path_alloc[OF fp, of "hd (L @ [b])"] path_alloc[OF fp, of "last (c # R)"]
  obtain hn tn where e: "heap s (hd (L @ [b])) = Some hn" "heap s (last (c # R)) = Some tn"
    by (cases L; cases R rule: rev_cases) auto
  from lo hi e have cmp: "\<not> v \<le> data hn" "\<not> data tn \<le> v" by (auto simp: val_def)
  from fr d have ne: "fresh s \<noteq> b" "fresh s \<noteq> c" "b \<noteq> c" "fresh s \<notin> set L" "fresh s \<notin> set R"
    by (auto simp: list_all_iff)
  let ?s' = "s\<lparr>heap := (heap s)(fresh s \<mapsto> \<lparr>data = v, nextp = Some c, prevp = Some b\<rparr>,
                 b \<mapsto> bn\<lparr>nextp := Some (fresh s)\<rparr>, c \<mapsto> cn\<lparr>prevp := Some (fresh s)\<rparr>),
               fresh := Suc (fresh s)\<rparr>"
  have run: "insertSorted v s l = Some (Inr (?s', l\<lparr>listSize := listSize l + 1\<rparr>))"
    using f n hd tl e cmp scan a pc ne
    by (simp add: insertSorted_def bindO_def emptyL_def deref_def modify_def new_node_def)
  have fwd: "path nextp (heap ?s') (headNode l) (L @ b # fresh s # c # R) None"
    using fp d a ne by (auto simp: path_append path_upd_other path_upd_field split: option.splits)
  have bwd: "path prevp (heap ?s') (tailNode l) (rev (L @ b # fresh s # c # R)) None"
    using bp d a ne pc by (auto simp: path_append path_upd_other path_upd_field split: option.splits)
  have wf: "wf_list ?s' (l\<lparr>listSize := listSize l + 1\<rparr>) (L @ b # fresh s # c # R)"
    unfolding wf_list_def fwd_list_def using fwd bwd d n fr ne
    by (auto simp: list_all_iff less_Suc_eq)
  have el: "elems ?s' (L @ b # fresh s # c # R) = elems s (L @ [b]) @ v # elems s (c # R)"
    using d a ne by (auto simp: elems_def val_def)
  from run wf el f show ?thesis by auto
qed

lemma elems_append: "elems s (as @ bs) = elems s as @ elems s bs"
  by (simp add: elems_def)

lemma elems_cong: "\<forall>a\<in>set as. val s' a = val s a \<Longrightarrow> elems s' as = elems s as"
  by (simp add: elems_def)

lemma insertSorted_on_sorted:
  assumes w: "wf_list s l as" and f: "isSorted l" and srt: "sorted (elems s as)"
  shows "\<exists>s' l' as'. insertSorted v s l = Some (Inr (s', l')) \<and> wf_list s' l' as' \<and>
     isSorted l' \<and> sorted (elems s' as') \<and>
     mset (elems s' as') = add_mset v (mset (elems s as))"
proof -
  from w have fp: "path nextp (heap s) (headNode l) as None"
    and bp: "path prevp (heap s) (tailNode l) (rev as) None"
    and d: "distinct as" and n: "listSize l = length as"
    and fr: "list_all (\<lambda>a. a < fresh s) as"
    by (auto simp: wf_list_def fwd_list_def)
  from fr have nf: "fresh s \<notin> set as" by (auto simp: list_all_iff)
  consider (nil) "as = []" | (at_front) "as \<noteq> []" "v \<le> val s (hd as)"
    | (at_back) "as \<noteq> []" "\<not> v \<le> val s (hd as)" "val s (last as) \<le> v"
    | (middle) "as \<noteq> []" "val s (hd as) < v" "v < val s (last as)"
    by fastforce
  then show ?thesis
  proof cases
    case nil
    from pushFront_wf[OF w, of v] obtain s' l' where
      p: "pushFront v s l = Inr (s', l')" "wf_list s' l' (fresh s # as)" "val s' (fresh s) = v"
         "isSorted l' = (isSorted l \<and> (as = [] \<or> v \<le> val s (hd as)))"
      by blast
    have "insertSorted v s l = Some (Inr (s', l'))"
      using f n nil p(1) by (simp add: insertSorted_def bindO_def emptyL_def)
    moreover have "elems s' (fresh s # as) = [v]" using nil p(3) by (simp add: elems_def)
    ultimately show ?thesis using p(2,4) f nil by (auto simp: elems_def)
  next
    case at_front
    from pushFront_wf[OF w, of v] obtain s' l' where
      p: "pushFront v s l = Inr (s', l')" "wf_list s' l' (fresh s # as)" "val s' (fresh s) = v"
         "\<forall>a. a \<noteq> fresh s \<longrightarrow> val s' a = val s a"
         "isSorted l' = (isSorted l \<and> (as = [] \<or> v \<le> val s (hd as)))"
      by blast
    from at_front fp obtain hn where h: "headNode l = Some (hd as)" "heap s (hd as) = Some hn"
      by (cases as) (auto split: option.splits)
    have run: "insertSorted v s l = Some (Inr (s', l'))"
      using f n at_front p(1) h by (simp add: insertSorted_def bindO_def emptyL_def deref_def val_def)
    have "\<forall>a\<in>set as. val s' a = val s a" using p(4) nf by metis
    then have e: "elems s' (fresh s # as) = v # elems s as"
      using p(3) elems_cong[of as s' s] by (simp add: elems_def)
    have "sorted (v # elems s as)"
      using srt at_front by (cases as) (auto simp: elems_def)
    with run e p(2,5) f at_front show ?thesis by (intro exI[of _ s'] exI[of _ l'] exI[of _ "fresh s # as"]) simp
  next
    case at_back
    from pushBack_wf[OF w, of v] obtain s' l' where
      p: "pushBack v s l = Inr (s', l')" "wf_list s' l' (as @ [fresh s])" "val s' (fresh s) = v"
         "\<forall>a. a \<noteq> fresh s \<longrightarrow> val s' a = val s a"
         "isSorted l' = (isSorted l \<and> (as = [] \<or> val s (last as) \<le> v))"
      by blast
    from at_back fp obtain hn where h: "headNode l = Some (hd as)" "heap s (hd as) = Some hn"
      by (cases as) (auto split: option.splits)
    from at_back bp obtain tn where t: "tailNode l = Some (last as)" "heap s (last as) = Some tn"
      by (cases as rule: rev_cases) (auto split: option.splits)
    have run: "insertSorted v s l = Some (Inr (s', l'))"
      using f n at_back p(1) h t by (simp add: insertSorted_def bindO_def emptyL_def deref_def val_def)
    have "\<forall>a\<in>set as. val s' a = val s a" using p(4) nf by metis
    then have e: "elems s' (as @ [fresh s]) = elems s as @ [v]"
      using p(3) elems_cong[of as s' s] by (simp add: elems_def)
    have "\<forall>x\<in>set (elems s as). x \<le> val s (last as)"
    proof
      fix x assume "x \<in> set (elems s as)"
      then obtain i where i: "i < length as" "x = elems s as ! i"
        by (auto simp: in_set_conv_nth elems_def)
      have "elems s as ! i \<le> elems s as ! (length as - 1)"
        using srt i by (intro sorted_nth_mono) (auto simp: elems_def)
      also have "\<dots> = val s (last as)"
        using at_back(1) by (simp add: elems_def last_conv_nth)
      finally show "x \<le> val s (last as)" using i by simp
    qed
    then have "sorted (elems s as @ [v])"
      using srt at_back by (auto simp: sorted_append)
    with run e p(2,5) f at_back show ?thesis
      by (intro exI[of _ s'] exI[of _ l'] exI[of _ "as @ [fresh s]"]) simp
  next
    case middle
    let ?P = "\<lambda>a. val s a < v"
    let ?L = "takeWhile ?P as" and ?D = "dropWhile ?P as"
    have LD: "as = ?L @ ?D" by simp
    from middle have "?L \<noteq> []" by (cases as) auto
    then obtain L b where L: "?L = L @ [b]" by (cases ?L rule: rev_cases) auto
    have "\<not> ?P (last as)" using middle by auto
    then have "?D \<noteq> []"
      using middle(1) by (metis dropWhile_eq_Nil_conv last_in_set)
    then obtain c R where D: "?D = c # R" by (cases ?D) auto
    have as: "as = L @ b # c # R" using LD L D by (metis append.assoc append_Cons append_Nil)
    have scan: "insertSorted_scan s v (headNode l) = Some (Inr (Some c))"
      using insertSorted_scan_path[OF fp, of v] D by simp
    have hdL: "hd (L @ [b]) = hd as" using as by (cases L) auto
    have lastR: "last (c # R) = last as" using as by simp
    from insert_middle[of s l L b c R v] w f scan middle hdL lastR as obtain s' l' where
      r: "insertSorted v s l = Some (Inr (s', l'))" "wf_list s' l' (L @ b # fresh s # c # R)"
         "isSorted l'"
         "elems s' (L @ b # fresh s # c # R) = elems s (L @ [b]) @ v # elems s (c # R)"
      by auto
    have lt: "\<forall>x\<in>set (elems s (L @ [b])). x < v"
      using set_takeWhileD[of _ ?P as] L by (auto simp: elems_def)
    have ge: "v \<le> val s c"
      using D by (metis (mono_tags, lifting) dropWhile_eq_Cons_conv not_less)
    have sl: "sorted (elems s (L @ [b]))" "sorted (elems s (c # R))"
      "\<forall>x\<in>set (elems s (L @ [b])). \<forall>y\<in>set (elems s (c # R)). x \<le> y"
      using srt unfolding as
      by (auto simp: elems_def sorted_append)
    have "sorted (elems s (L @ [b]) @ v # elems s (c # R))"
      unfolding sorted_append using sl lt ge by (auto simp: elems_def)
    moreover have "mset (elems s (L @ [b]) @ v # elems s (c # R)) = add_mset v (mset (elems s as))"
      unfolding as by (simp add: elems_def)
    ultimately show ?thesis
      using r by (intro exI[of _ s'] exI[of _ l'] exI[of _ "L @ b # fresh s # c # R"]) simp
  qed
qed

text \<open>
  Claim C7 as stated fails on a list whose sorted flag is set although its elements are
  out of order. \<open>insertSorted\<close> consults the flag only: the list \<open>[1, 2, 3]\<close>
  negated through \<open>forEach\<close> holds \<open>[-1, -2, -3]\<close> with the flag still set, and
  \<open>insertSorted(-2)\<close> then leaves \<open>[-2, -1, -2, -3]\<close>, with \<open>sorted()\<close> true and
  \<open>isSortedCheck()\<close> false.
\<close>

theorem insertSorted_on_stale_flag:
  "forEach_insertSorted_test uminus [1, 2, 3] (- 2) =
     Some (Inr ([- 2, - 1, - 2, - 3], True, False))"
  unfolding forEach_insertSorted_test_def
  by (simp add: run_defs sort_defs forEach_def forEach_loop.simps insertSorted_def
      insertSorted_scan.simps isSortedCheck_def isSortedCheck_loop.simps)

text \<open>
  Claim C7, amended. Take a well-formed list whose sorted flag, when set, tells the truth. Then
  \<open>insertSorted(v)\<close> returns; afterwards \<open>sorted()\<close> is true, the size has grown by
  one, the list passes \<open>isSortedCheck()\<close> and \<open>checkIntegrity()\<close>, and its elements
  are non-decreasing with the multiset of the old elements plus \<open>v\<close>. A list whose
  flag is false is sorted first: \<open>[6, 2, 4]\<close> with 5 becomes \<open>[2, 4, 5, 6]\<close>, as does
  \<open>[2, 4, 6]\<close> with 5.
\<close>

theorem insertSorted_keeps_sorted:
  assumes "wf_list s l as" and "sortedL l \<longrightarrow> sorted (elems s as)"
  shows "(\<exists>s' l'. insertSorted v s l = Some (Inr (s', l')) \<and> sortedL l' \<and>
            sizeL l' = sizeL l + 1 \<and>
            isSortedCheck s' l' = Some (Inr True) \<and> checkIntegrity s' l' = Some (Inr True) \<and>
            (\<exists>ys. toVector s' l' = Some (Inr ys) \<and> sorted ys \<and>
                  mset ys = add_mset v (mset (elems s as)))) \<and>
         insertSorted_test [2, 4, 6] 5 = Some (Inr ([2, 4, 5, 6], True, True)) \<and>
         insertSorted_test [6, 2, 4] 5 = Some (Inr ([2, 4, 5, 6], True, True))"
proof -
  obtain s0 l0 as0 where
    pre: "(if \<not> isSorted l then sortL s l else Some (Inr (s, l))) = Some (Inr (s0, l0))" and
    w0: "wf_list s0 l0 as0" and f0: "isSorted l0" and srt0: "sorted (elems s0 as0)" and
    m0: "mset (elems s0 as0) = mset (elems s as)"
  proof (cases "isSorted l")
    case True
    with assms that[of s l as] show ?thesis by (simp add: sortedL_def)
  next
    case False
    from sortL_wf[OF assms(1)] obtain s1 l1 where
      r: "sortL s l = Some (Inr (s1, l1))" "wf_list s1 l1 (sort_key (val s) as)" "isSorted l1"
         "links_changed (set as) s s1"
      by blast
    from r(4) have "val s1 = val s" by (simp add: links_changed_def)
    then have e: "elems s1 (sort_key (val s) as) = sort (elems s as)"
      using elems_sort_key[of s as] by (simp add: elems_def)
    from that[of s1 l1 "sort_key (val s) as"] False r e show ?thesis by simp
  qed
  from insertSorted_on_sorted[OF w0 f0 srt0, of v] obtain s' l' as' where
    r: "insertSorted v s0 l0 = Some (Inr (s', l'))" "wf_list s' l' as'" "isSorted l'"
       "sorted (elems s' as')" "mset (elems s' as') = add_mset v (mset (elems s0 as0))"
    by blast
  have same: "insertSorted v s l = insertSorted v s0 l0"
    using pre f0 by (simp add: insertSorted_def bindO_def)
  from r(2) have fw: "fwd_list s' l' as'" by (simp add: wf_list_def)
  have len: "length (elems s' as') = length (elems s as) + 1"
    using r(5) m0 by (metis Suc_eq_plus1 size_add_mset size_mset)
  have sz: "sizeL l' = sizeL l + 1"
    using len fw assms(1) by (simp add: sizeL_def wf_list_def fwd_list_def elems_def)
  have "\<exists>s' l'. insertSorted v s l = Some (Inr (s', l')) \<and> sortedL l' \<and>
            sizeL l' = sizeL l + 1 \<and>
            isSortedCheck s' l' = Some (Inr True) \<and> checkIntegrity s' l' = Some (Inr True) \<and>
            (\<exists>ys. toVector s' l' = Some (Inr ys) \<and> sorted ys \<and>
                  mset ys = add_mset v (mset (elems s as)))"
    using r same sz isSortedCheck_fwd[OF fw] toVector_fwd[OF fw] checkIntegrity_wf[OF r(2)] m0
    by (auto simp: sortedL_def)
  with insertSorted_examples show ?thesis by blast
qed

theorem insertSorted_keeps_sorted_witness:
  "wf_list store_246 list_246 [0, 1, 2] \<and> sortedL list_246 \<and>
   sorted (elems store_246 [0, 1, 2]) \<and>
   (\<exists>s' l'. insertSorted 5 store_246 list_246 = Some (Inr (s', l')) \<and> sortedL l' \<and>
       sizeL l' = 4 \<and> isSortedCheck s' l' = Some (Inr True) \<and>
       (\<exists>ys. toVector s' l' = Some (Inr ys) \<and> sorted ys \<and> mset ys = mset [2, 4, 5, 6]))"
proof -
  have w: "wf_list store_246 list_246 [0, 1, 2]"
    by (simp add: wf_list_def fwd_list_def store_246_def list_246_def)
  have e: "elems store_246 [0, 1, 2] = [2, 4, 6]"
    by (simp add: elems_def val_def store_246_def)
  have f: "sortedL list_246" "sizeL list_246 = 3"
    by (simp_all add: sortedL_def sizeL_def list_246_def)
  have srt: "sortedL list_246 \<longrightarrow> sorted (elems store_246 [0, 1, 2])"
    unfolding e by simp
  from insertSorted_keeps_sorted [OF w srt, of 5] w f srt show ?thesis
    unfolding e by auto
qed

subsection \<open>merge of two lists\<close>

lemma merge_examples:
  "merge_test [1, 3, 5] [2, 3, 6] = Some (Inr ([1, 2, 3, 3, 5, 6], 6, True, 0)) \<and>
   merge_test [3, 1] [4, 2] = Some (Inr ([1, 2, 3, 4], 4, True, 0)) \<and>
   merge_test [] [2, 1] = Some (Inr ([1, 2], 2, True, 0))"
  unfolding merge_test_def
  by (simp add: run_defs sort_defs mergeL_def merge_loop.simps merge_rest.simps move_assign_def
      clear_def clear_loop.simps isSortedCheck_def isSortedCheck_loop.simps sizeL_def)

lemma builds_refl: "builds s rs s rs"
  by (simp add: builds_def)

lemma builds_trans: "builds s rs s1 rs1 \<Longrightarrow> builds s1 rs1 s2 rs2 \<Longrightarrow> builds s rs s2 rs2"
  unfolding builds_def
  by (metis (no_types, lifting) le_trans less_le_trans not_le)

lemma pushBack_build:
  assumes "wf_list s result rs"
  shows "\<exists>s' result'. pushBack v s result = Inr (s', result') \<and>
     wf_list s' result' (rs @ [fresh s]) \<and> elems s' (rs @ [fresh s]) = elems s rs @ [v] \<and>
     builds s rs s' (rs @ [fresh s]) \<and> fresh s' = Suc (fresh s) \<and>
     (\<forall>a. a \<noteq> fresh s \<longrightarrow> val s' a = val s a)"
proof -
  from pushBack_wf[OF assms, of v] obtain s' l' where
    p: "pushBack v s result = Inr (s', l')" "wf_list s' l' (rs @ [fresh s])" "val s' (fresh s) = v"
       "fresh s' = Suc (fresh s)"
       "\<forall>a. a \<noteq> fresh s \<longrightarrow> val s' a = val s a"
       "\<forall>a. a \<noteq> fresh s \<and> a \<notin> set rs \<longrightarrow> heap s' a = heap s a"
    by blast
  from assms have nf: "fresh s \<notin> set rs" by (auto simp: wf_list_def fwd_list_def list_all_iff)
  have "\<forall>a\<in>set rs. val s' a = val s a" using p(5) nf by metis
  then have e: "elems s' (rs @ [fresh s]) = elems s rs @ [v]"
    using p(3) elems_cong[of rs s' s] by (simp add: elems_def)
  have b: "builds s rs s' (rs @ [fresh s])"
    using p(4,6) by (auto simp: builds_def)
  from p(1,2,4,5) e b show ?thesis by blast
qed

lemma path_builds:
  "path f (heap s) p as q \<Longrightarrow> builds s rs s' rs' \<Longrightarrow> \<forall>a\<in>set as. a < fresh s \<and> a \<notin> set rs \<Longrightarrow>
   path f (heap s') p as q"
  by (rule path_frame) (auto simp: builds_def)

lemma merge_rest_spec:
  "wf_list s result rs \<Longrightarrow> path nextp (heap s) c as None \<Longrightarrow>
   \<forall>a\<in>set as. a < fresh s \<and> a \<notin> set rs \<Longrightarrow> \<forall>a\<in>set as. val s a = k a \<Longrightarrow>
   \<exists>s' result' rs'. merge_rest s result c = Some (Inr (s', result')) \<and> wf_list s' result' rs' \<and>
      elems s' rs' = elems s rs @ map k as \<and> builds s rs s' rs'"
proof (induction as arbitrary: s result rs c)
  case Nil
  then show ?case
    by (subst merge_rest.simps) (auto simp: builds_refl)
next
  case (Cons a as)
  from Cons.prems(2) obtain n where n: "c = Some a" "heap s a = Some n"
    "path nextp (heap s) (nextp n) as None"
    by (auto split: option.splits)
  from Cons.prems(4) n have kv: "data n = k a" by (simp add: val_def)
  from pushBack_build[OF Cons.prems(1), of "data n"] obtain s1 result1 where
    p: "pushBack (data n) s result = Inr (s1, result1)" "wf_list s1 result1 (rs @ [fresh s])"
       "elems s1 (rs @ [fresh s]) = elems s rs @ [data n]" "builds s rs s1 (rs @ [fresh s])"
       "fresh s1 = Suc (fresh s)" "\<forall>a. a \<noteq> fresh s \<longrightarrow> val s1 a = val s a"
    by blast
  from p(4) Cons.prems(3) n have h1: "heap s1 a = Some n" by (simp add: builds_def)
  have p1: "path nextp (heap s1) (nextp n) as None"
    using path_builds[OF n(3) p(4)] Cons.prems(3) by simp
  have d1: "\<forall>b\<in>set as. b < fresh s1 \<and> b \<notin> set (rs @ [fresh s])"
    using Cons.prems(3) p(5) by auto
  have k1: "\<forall>b\<in>set as. val s1 b = k b"
    using Cons.prems(3,4) p(6) by (metis list.set_intros(2) nat_neq_iff)
  from Cons.IH[OF p(2) p1 d1 k1] obtain s' result' rs' where
    r: "merge_rest s1 result1 (nextp n) = Some (Inr (s', result'))" "wf_list s' result' rs'"
       "elems s' rs' = elems s1 (rs @ [fresh s]) @ map k as" "builds s1 (rs @ [fresh s]) s' rs'"
    by blast
  have "merge_rest s result c = Some (Inr (s', result'))"
    using n p(1) h1 r(1) by (subst merge_rest.simps) (simp add: deref_def)
  moreover have "elems s' rs' = elems s rs @ map k (a # as)"
    using r(3) p(3) kv by simp
  moreover note builds_trans[OF p(4) r(4)] r(2)
  ultimately show ?case by blast
qed

lemma merge_loop_spec:
  "wf_list s result rs \<Longrightarrow> path nextp (heap s) c1 as None \<Longrightarrow> path nextp (heap s) c2 bs None \<Longrightarrow>
   \<forall>a\<in>set as \<union> set bs. a < fresh s \<and> a \<notin> set rs \<Longrightarrow> \<forall>a\<in>set as \<union> set bs. val s a = k a \<Longrightarrow>
   \<exists>s' result' rs' c1' c2' as' bs'.
      merge_loop s result c1 c2 = Some (Inr (s', result', c1', c2')) \<and>
      wf_list s' result' rs' \<and> builds s rs s' rs' \<and>
      path nextp (heap s') c1' as' None \<and> path nextp (heap s') c2' bs' None \<and>
      set as' \<subseteq> set as \<and> set bs' \<subseteq> set bs \<and> (as' = [] \<or> bs' = []) \<and>
      (\<forall>a\<in>set as' \<union> set bs'. val s' a = k a) \<and>
      elems s' rs' @ map k as' @ map k bs' = elems s rs @ map k (merge_f k as bs)"
proof (induction k as bs arbitrary: s result rs c1 c2 rule: merge_f.induct)
  case (1 k ys)
  then have "merge_loop s result c1 c2 = Some (Inr (s, result, None, c2))"
    by (subst merge_loop.simps) simp
  with 1 show ?case
    by (intro exI[of _ s] exI[of _ result] exI[of _ rs] exI[of _ None] exI[of _ c2]
        exI[of _ "[]"] exI[of _ ys]) (simp add: builds_refl)
next
  case (2 k v va)
  then have "merge_loop s result c1 c2 = Some (Inr (s, result, c1, None))"
    by (subst merge_loop.simps) (auto split: option.splits)
  with 2 show ?case
    by (intro exI[of _ s] exI[of _ result] exI[of _ rs] exI[of _ c1] exI[of _ None]
        exI[of _ "v # va"] exI[of _ "[]"]) (simp add: builds_refl)
next
  case (3 k x xs y ys)
  from "3.prems"(2,3) obtain n1 n2 where
    n1: "c1 = Some x" "heap s x = Some n1" "path nextp (heap s) (nextp n1) xs None" and
    n2: "c2 = Some y" "heap s y = Some n2" "path nextp (heap s) (nextp n2) ys None"
    by (auto split: option.splits)
  from "3.prems"(5) n1 n2 have kv: "data n1 = k x" "data n2 = k y" by (simp_all add: val_def)
  show ?case
  proof (cases "k x \<le> k y")
    case True
    from pushBack_build[OF "3.prems"(1), of "data n1"] obtain s1 result1 where
      p: "pushBack (data n1) s result = Inr (s1, result1)" "wf_list s1 result1 (rs @ [fresh s])"
         "elems s1 (rs @ [fresh s]) = elems s rs @ [data n1]" "builds s rs s1 (rs @ [fresh s])"
         "fresh s1 = Suc (fresh s)" "\<forall>a. a \<noteq> fresh s \<longrightarrow> val s1 a = val s a"
      by blast
    from p(4) "3.prems"(4) n1 have h1: "heap s1 x = Some n1" by (simp add: builds_def)
    have p1: "path nextp (heap s1) (nextp n1) xs None"
      using path_builds[OF n1(3) p(4)] "3.prems"(4) by simp
    have p2: "path nextp (heap s1) c2 (y # ys) None"
      using path_builds[OF "3.prems"(3) p(4)] "3.prems"(4) by simp
    have d1: "\<forall>b\<in>set xs \<union> set (y # ys). b < fresh s1 \<and> b \<notin> set (rs @ [fresh s])"
      using "3.prems"(4) p(5) by (auto intro!: less_SucI)
    have k1: "\<forall>b\<in>set xs \<union> set (y # ys). val s1 b = k b"
    proof
      fix b assume b: "b \<in> set xs \<union> set (y # ys)"
      with "3.prems"(4) have "b \<noteq> fresh s" by auto
      with p(6) "3.prems"(5) b show "val s1 b = k b" by auto
    qed
    from "3.IH"(1)[OF True p(2) p1 p2 d1 k1] obtain s' result' rs' c1' c2' as' bs' where
      r: "merge_loop s1 result1 (nextp n1) c2 = Some (Inr (s', result', c1', c2'))"
         "wf_list s' result' rs'" "builds s1 (rs @ [fresh s]) s' rs'"
         "path nextp (heap s') c1' as' None" "path nextp (heap s') c2' bs' None"
         "set as' \<subseteq> set xs" "set bs' \<subseteq> set (y # ys)" "as' = [] \<or> bs' = []"
         "\<forall>a\<in>set as' \<union> set bs'. val s' a = k a"
         "elems s' rs' @ map k as' @ map k bs' =
            elems s1 (rs @ [fresh s]) @ map k (merge_f k xs (y # ys))"
      by blast
    have run: "merge_loop s result c1 c2 = Some (Inr (s', result', c1', c2'))"
      using n1 n2 kv True p(1) h1 r(1) by (subst merge_loop.simps) (simp add: deref_def)
    have el: "elems s' rs' @ map k as' @ map k bs' =
              elems s rs @ map k (merge_f k (x # xs) (y # ys))"
      using r(10) p(3) kv True by simp
    from r(6) have sub: "set as' \<subseteq> set (x # xs)" by auto
    from run r(2) builds_trans[OF p(4) r(3)] r(4,5) sub r(7,8,9) el show ?thesis
      by blast
  next
    case False
    from pushBack_build[OF "3.prems"(1), of "data n2"] obtain s1 result1 where
      p: "pushBack (data n2) s result = Inr (s1, result1)" "wf_list s1 result1 (rs @ [fresh s])"
         "elems s1 (rs @ [fresh s]) = elems s rs @ [data n2]" "builds s rs s1 (rs @ [fresh s])"
         "fresh s1 = Suc (fresh s)" "\<forall>a. a \<noteq> fresh s \<longrightarrow> val s1 a = val s a"
      by blast
    from p(4) "3.prems"(4) n2 have h1: "heap s1 y = Some n2" by (simp add: builds_def)
    have p1: "path nextp (heap s1) c1 (x # xs) None"
      using path_builds[OF "3.prems"(2) p(4)] "3.prems"(4) by simp
    have p2: "path nextp (heap s1) (nextp n2) ys None"
      using path_builds[OF n2(3) p(4)] "3.prems"(4) by simp
    have d1: "\<forall>b\<in>set (x # xs) \<union> set ys. b < fresh s1 \<and> b \<notin> set (rs @ [fresh s])"
      using "3.prems"(4) p(5) by (auto intro!: less_SucI)
    have k1: "\<forall>b\<in>set (x # xs) \<union> set ys. val s1 b = k b"
    proof
      fix b assume b: "b \<in> set (x # xs) \<union> set ys"
      with "3.prems"(4) have "b \<noteq> fresh s" by auto
      with p(6) "3.prems"(5) b show "val s1 b = k b" by auto
    qed
    from "3.IH"(2)[OF False p(2) p1 p2 d1 k1] obtain s' result' rs' c1' c2' as' bs' where
      r: "merge_loop s1 result1 c1 (nextp n2) = Some (Inr (s', result', c1', c2'))"
         "wf_list s' result' rs'" "builds s1 (rs @ [fresh s]) s' rs'"
         "path nextp (heap s') c1' as' None" "path nextp (heap s') c2' bs' None"
         "set as' \<subseteq> set (x # xs)" "set bs' \<subseteq> set ys" "as' = [] \<or> bs' = []"
         "\<forall>a\<in>set as' \<union> set bs'. val s' a = k a"
         "elems s' rs' @ map k as' @ map k bs' =
            elems s1 (rs @ [fresh s]) @ map k (merge_f k (x # xs) ys)"
      by blast
    have run: "merge_loop s result c1 c2 = Some (Inr (s', result', c1', c2'))"
      using n1 n2 kv False p(1) h1 r(1) by (subst merge_loop.simps) (simp add: deref_def)
    have el: "elems s' rs' @ map k as' @ map k bs' =
              elems s rs @ map k (merge_f k (x # xs) (y # ys))"
      using r(10) p(3) kv False by simp
    from r(7) have sub: "set bs' \<subseteq> set (y # ys)" by auto
    from run r(2) builds_trans[OF p(4) r(3)] r(4,5,6) sub r(8,9) el show ?thesis
      by blast
  qed
qed

lemma wf_frame:
  assumes "wf_list s l as" "fresh s \<le> fresh s'" "\<forall>a\<in>set as. heap s' a = heap s a"
  shows "wf_list s' l as \<and> elems s' as = elems s as"
proof -
  from assms(1) have f: "path nextp (heap s) (headNode l) as None"
    and b: "path prevp (heap s) (tailNode l) (rev as) None"
    and r: "distinct as" "listSize l = length as" "list_all (\<lambda>a. a < fresh s) as"
    by (auto simp: wf_list_def fwd_list_def)
  have "path nextp (heap s') (headNode l) as None"
    using path_frame[OF f] assms(3) by simp
  moreover have "path prevp (heap s') (tailNode l) (rev as) None"
    using path_frame[OF b] assms(3) by simp
  moreover have "list_all (\<lambda>a. a < fresh s') as"
    using r(3) assms(2) by (auto simp: list_all_iff)
  moreover have "elems s' as = elems s as"
    using assms(3) by (simp add: elems_def val_def)
  ultimately show ?thesis using r by (simp add: wf_list_def fwd_list_def)
qed

lemma wf_builds:
  assumes "wf_list s l as" "builds s rs s' rs'" "set as \<inter> set rs = {}"
  shows "wf_list s' l as \<and> elems s' as = elems s as"
proof (rule wf_frame[OF assms(1)])
  from assms(2) show "fresh s \<le> fresh s'" by (simp add: builds_def)
  from assms(1) have "\<forall>a\<in>set as. a < fresh s" by (simp add: wf_list_def fwd_list_def list_all_iff)
  with assms(2,3) show "\<forall>a\<in>set as. heap s' a = heap s a" by (auto simp: builds_def)
qed

lemma wf_links_changed:
  assumes "wf_list s l bs" "links_changed A s s'" "A \<inter> set bs = {}"
  shows "wf_list s' l bs \<and> elems s' bs = elems s bs"
proof (rule wf_frame[OF assms(1)])
  from assms(2) show "fresh s \<le> fresh s'" by (simp add: links_changed_def)
  from assms(2,3) show "\<forall>a\<in>set bs. heap s' a = heap s a" by (auto simp: links_changed_def)
qed

lemma sort_if_needed:
  assumes "wf_list s l as" "isSorted l \<longrightarrow> sorted (elems s as)"
  shows "\<exists>s1 l1 as1. (if \<not> isSorted l then sortL s l else Some (Inr (s, l))) = Some (Inr (s1, l1)) \<and>
     wf_list s1 l1 as1 \<and> isSorted l1 \<and> set as1 = set as \<and> length as1 = length as \<and>
     sorted (elems s1 as1) \<and> mset (elems s1 as1) = mset (elems s as) \<and>
     links_changed (set as) s s1"
proof (cases "isSorted l")
  case True
  with assms show ?thesis
    by (intro exI[of _ s] exI[of _ l] exI[of _ as]) (simp add: links_changed_refl)
next
  case False
  from sortL_wf[OF assms(1)] obtain s1 l1 where
    r: "sortL s l = Some (Inr (s1, l1))" "wf_list s1 l1 (sort_key (val s) as)" "isSorted l1"
       "links_changed (set as) s s1"
    by blast
  from r(4) have "val s1 = val s" by (simp add: links_changed_def)
  then have e: "elems s1 (sort_key (val s) as) = sort (elems s as)"
    using elems_sort_key[of s as] by (simp add: elems_def)
  from False r e show ?thesis
    by (intro exI[of _ s1] exI[of _ l1] exI[of _ "sort_key (val s) as"]) simp
qed

lemma val_builds:
  "builds s rs s' rs' \<Longrightarrow> a < fresh s \<Longrightarrow> a \<notin> set rs \<Longrightarrow> val s' a = val s a"
  by (simp add: builds_def val_def)

lemma outside_builds:
  assumes "builds s rs s' rs'" "a < fresh s" "a \<notin> set rs"
  shows "a < fresh s' \<and> a \<notin> set rs'"
proof
  from assms(1) have le: "fresh s \<le> fresh s'" and
    el: "\<forall>a\<in>set rs'. a \<in> set rs \<or> fresh s \<le> a"
    by (simp_all add: builds_def)
  from le assms(2) show "a < fresh s'" by simp
  show "a \<notin> set rs'"
  proof
    assume "a \<in> set rs'"
    with el have "a \<in> set rs \<or> fresh s \<le> a" by blast
    with assms(2,3) show False by simp
  qed
qed

lemma merge_loops:
  assumes w1: "wf_list s l1 as" and w2: "wf_list s l2 bs"
  shows "\<exists>s3 result0 c1 c2 s4 result1 s' result rs.
     merge_loop s List_new (headNode l1) (headNode l2) = Some (Inr (s3, result0, c1, c2)) \<and>
     merge_rest s3 result0 c1 = Some (Inr (s4, result1)) \<and>
     merge_rest s4 result1 c2 = Some (Inr (s', result)) \<and>
     wf_list s' result rs \<and> builds s [] s' rs \<and>
     elems s' rs = map (val s) (merge_f (val s) as bs)"
proof -
  let ?k = "val s"
  from w1 w2 have f1: "path nextp (heap s) (headNode l1) as None"
    and f2: "path nextp (heap s) (headNode l2) bs None"
    and lt: "\<forall>a\<in>set as \<union> set bs. a < fresh s \<and> a \<notin> set []"
    by (auto simp: wf_list_def fwd_list_def list_all_iff)
  have w0: "wf_list s List_new []" by (rule wf_list_new)
  have kk: "\<forall>a\<in>set as \<union> set bs. val s a = ?k a" by simp
  from merge_loop_spec[OF w0 f1 f2 lt kk] obtain s3 result rs3 c1 c2 as' bs' where
    a: "merge_loop s List_new (headNode l1) (headNode l2) = Some (Inr (s3, result, c1, c2))"
       "wf_list s3 result rs3" "builds s [] s3 rs3"
       "path nextp (heap s3) c1 as' None" "path nextp (heap s3) c2 bs' None"
       "set as' \<subseteq> set as" "set bs' \<subseteq> set bs" "as' = [] \<or> bs' = []"
       "\<forall>a\<in>set as' \<union> set bs'. val s3 a = ?k a"
       "elems s3 rs3 @ map ?k as' @ map ?k bs' = elems s [] @ map ?k (merge_f ?k as bs)"
    by blast
  have old: "\<forall>a\<in>set as' \<union> set bs'. a < fresh s" using a(6,7) lt by auto
  have out3: "\<forall>a\<in>set as' \<union> set bs'. a < fresh s3 \<and> a \<notin> set rs3"
    using old outside_builds[OF a(3)] by simp
  then have o1: "\<forall>a\<in>set as'. a < fresh s3 \<and> a \<notin> set rs3" by auto
  from a(9) have k1: "\<forall>a\<in>set as'. val s3 a = ?k a" by auto
  from merge_rest_spec[OF a(2) a(4) o1 k1] obtain s4 result1 rs4 where
    b: "merge_rest s3 result c1 = Some (Inr (s4, result1))" "wf_list s4 result1 rs4"
       "elems s4 rs4 = elems s3 rs3 @ map ?k as'" "builds s3 rs3 s4 rs4"
    by blast
  have p4: "path nextp (heap s4) c2 bs' None"
    using path_builds[OF a(5) b(4)] out3 by auto
  have o2: "\<forall>a\<in>set bs'. a < fresh s4 \<and> a \<notin> set rs4"
    using out3 outside_builds[OF b(4)] by simp
  have k2: "\<forall>a\<in>set bs'. val s4 a = ?k a"
    using a(9) out3 val_builds[OF b(4)] by auto
  from merge_rest_spec[OF b(2) p4 o2 k2] obtain s5 result2 rs5 where
    c: "merge_rest s4 result1 c2 = Some (Inr (s5, result2))" "wf_list s5 result2 rs5"
       "elems s5 rs5 = elems s4 rs4 @ map ?k bs'" "builds s4 rs4 s5 rs5"
    by blast
  have e: "elems s5 rs5 = map ?k (merge_f ?k as bs)"
    using c(3) b(3) a(10) by (simp add: elems_def)
  have bl: "builds s [] s5 rs5"
    using builds_trans[OF builds_trans[OF a(3) b(4)] c(4)] .
  from a(1) b(1) c(1) c(2) bl e show ?thesis by blast
qed

lemma mergeL_wf:
  assumes w1: "wf_list s l as" and w2: "wf_list s other bs" and dj: "set as \<inter> set bs = {}"
    and f1: "isSorted l \<longrightarrow> sorted (elems s as)"
    and f2: "isSorted other \<longrightarrow> sorted (elems s bs)"
  shows "\<exists>s' l' rs. mergeL s l other =
       Some (Inr (s', l', \<lparr>headNode = None, tailNode = None, listSize = 0, isSorted = True\<rparr>)) \<and>
     wf_list s' l' rs \<and> sorted (elems s' rs) \<and>
     mset (elems s' rs) = mset (elems s as) + mset (elems s bs)"
proof -
  \<comment> \<open>\<open>if (!isSorted) sort();\<close>\<close>
  from sort_if_needed[OF w1 f1] obtain s1 l1 as1 where
    a: "(if \<not> isSorted l then sortL s l else Some (Inr (s, l))) = Some (Inr (s1, l1))"
       "wf_list s1 l1 as1" "set as1 = set as" "sorted (elems s1 as1)"
       "mset (elems s1 as1) = mset (elems s as)" "links_changed (set as) s s1"
    by blast
  from wf_links_changed[OF w2 a(6) dj] have w2': "wf_list s1 other bs"
    and e2: "elems s1 bs = elems s bs" by simp_all
  \<comment> \<open>\<open>if (!other.isSorted) other.sort();\<close>\<close>
  from f2 e2 have f2': "isSorted other \<longrightarrow> sorted (elems s1 bs)" by simp
  from sort_if_needed[OF w2' f2'] obtain s2 other1 bs1 where
    b: "(if \<not> isSorted other then sortL s1 other else Some (Inr (s1, other))) =
          Some (Inr (s2, other1))"
       "wf_list s2 other1 bs1" "set bs1 = set bs" "sorted (elems s2 bs1)"
       "mset (elems s2 bs1) = mset (elems s1 bs)" "links_changed (set bs) s1 s2"
    by blast
  from dj a(3) have dj1: "set bs \<inter> set as1 = {}" by auto
  from wf_links_changed[OF a(2) b(6) dj1] have w1': "wf_list s2 l1 as1"
    and e1: "elems s2 as1 = elems s1 as1" by simp_all
  from dj a(3) b(3) have dj2: "set as1 \<inter> set bs1 = {}" by auto
  \<comment> \<open>the three loops\<close>
  from merge_loops[OF w1' b(2)] obtain s3 result0 c1 c2 s4 result1 s5 result rs where
    c: "merge_loop s2 List_new (headNode l1) (headNode other1) = Some (Inr (s3, result0, c1, c2))"
       "merge_rest s3 result0 c1 = Some (Inr (s4, result1))"
       "merge_rest s4 result1 c2 = Some (Inr (s5, result))"
       "wf_list s5 result rs" "builds s2 [] s5 rs"
       "elems s5 rs = map (val s2) (merge_f (val s2) as1 bs1)"
    by blast
  from wf_builds[OF w1' c(5)] have w15: "wf_list s5 l1 as1" by simp
  from wf_builds[OF b(2) c(5)] have w25: "wf_list s5 other1 bs1" by simp
  from w1' b(2) have old: "\<forall>a\<in>set as1 \<union> set bs1. a < fresh s2"
    by (auto simp: wf_list_def fwd_list_def list_all_iff)
  have new: "\<forall>a\<in>set rs. a \<notin> set as1 \<union> set bs1"
  proof
    fix a assume "a \<in> set rs"
    with c(5) have ge: "fresh s2 \<le> a" by (auto simp: builds_def)
    show "a \<notin> set as1 \<union> set bs1"
    proof
      assume "a \<in> set as1 \<union> set bs1"
      with old have "a < fresh s2" by blast
      with ge show False by simp
    qed
  qed
  \<comment> \<open>\<open>*this = std::move(result);\<close>\<close>
  from clear_wf[OF w15] obtain s6 where
    d: "clear s5 l1 = Inr (s6, \<lparr>headNode = None, tailNode = None, listSize = 0, isSorted = True\<rparr>)"
       "fresh s6 = fresh s5" "\<forall>b. b \<notin> set as1 \<longrightarrow> heap s6 b = heap s5 b"
    by blast
  have mv: "move_assign s5 l1 result =
      Inr (s6, result, \<lparr>headNode = None, tailNode = None, listSize = 0, isSorted = True\<rparr>)"
    using d(1) by (simp add: move_assign_def)
  have wr6: "wf_list s6 result rs \<and> elems s6 rs = elems s5 rs"
    using new d(2,3) by (intro wf_frame[OF c(4)]) auto
  have wo6: "wf_list s6 other1 bs1"
    using dj2 d(2,3) wf_frame[OF w25, of s6] by auto
  \<comment> \<open>\<open>other.clear();\<close>\<close>
  from clear_wf[OF wo6] obtain s7 where
    e: "clear s6 other1 = Inr (s7, \<lparr>headNode = None, tailNode = None, listSize = 0, isSorted = True\<rparr>)"
       "fresh s7 = fresh s6" "\<forall>b. b \<notin> set bs1 \<longrightarrow> heap s7 b = heap s6 b"
    by blast
  have wr7: "wf_list s7 result rs \<and> elems s7 rs = elems s6 rs"
    using new e(2,3) wr6 by (intro wf_frame[of s6]) auto
  \<comment> \<open>the destructor of \<open>result\<close>\<close>
  let ?E = "\<lparr>headNode = None, tailNode = None, listSize = 0, isSorted = True\<rparr>"
  have "wf_list s7 ?E []" by (simp add: wf_list_def fwd_list_def)
  from clear_wf[OF this] obtain s8 where
    g: "clear s7 ?E = Inr (s8, ?E)" "fresh s8 = fresh s7" "\<forall>b. b \<notin> set [] \<longrightarrow> heap s8 b = heap s7 b"
    by blast
  have wr8: "wf_list s8 result rs \<and> elems s8 rs = elems s7 rs"
    using g(2,3) wr7 by (intro wf_frame[of s7]) auto
  have run: "mergeL s l other = Some (Inr (s8, result, ?E))"
    using a(1) b(1) c(1,2,3) mv e(1) g(1) by (simp add: mergeL_def bindO_def)
  have el: "elems s8 rs = map (val s2) (merge_f (val s2) as1 bs1)"
    using wr8 wr7 wr6 c(6) by simp
  have "sorted (elems s2 as1)" "sorted (elems s2 bs1)"
    using a(4) b(4) e1 by simp_all
  then have "sorted (map (val s2) as1)" "sorted (map (val s2) bs1)"
    unfolding elems_def .
  then have srt: "sorted (elems s8 rs)"
    unfolding el by (rule sorted_merge_f)
  have "mset (map (val s2) (merge_f (val s2) as1 bs1)) =
        image_mset (val s2) (mset (merge_f (val s2) as1 bs1))" by (rule mset_map)
  also have "\<dots> = mset (elems s2 as1) + mset (elems s2 bs1)"
    by (simp add: elems_def)
  also have "\<dots> = mset (elems s as) + mset (elems s bs)"
    using e1 a(5) b(5) e2 by simp
  finally have ms: "mset (elems s8 rs) = mset (elems s as) + mset (elems s bs)"
    unfolding el .
  from run wr8 srt ms show ?thesis by blast
qed

text \<open>
  Claim C6 as stated fails when an operand has its sorted flag set although its elements
  are out of order. \<open>merge\<close> consults the flags only: with \<open>a = [1, 2]\<close> negated
  through \<open>forEach\<close> (so \<open>[-1, -2]\<close>, flag still set) and \<open>b = [0]\<close>,
  \<open>a.merge(b)\<close> leaves \<open>a\<close> holding \<open>[-1, -2, 0]\<close>: three elements, \<open>b\<close> empty, and
  \<open>isSortedCheck()\<close> false.
\<close>

theorem merge_on_stale_flag:
  "forEach_merge_test uminus [1, 2] [0] = Some (Inr ([- 1, - 2, 0], 3, False, 0))"
  unfolding forEach_merge_test_def
  by (simp add: run_defs sort_defs forEach_def forEach_loop.simps mergeL_def merge_loop.simps
      merge_rest.simps move_assign_def clear_def clear_loop.simps isSortedCheck_def
      isSortedCheck_loop.simps sizeL_def)

text \<open>
  Claim C6, amended. Take two different well-formed lists with no node in common, each with a
  sorted flag that tells the truth when set. Then \<open>merge(other)\<close> returns; \<open>this\<close>
  then has as many elements as both inputs together, its elements are the multiset union
  of theirs and non-decreasing, it passes \<open>isSortedCheck()\<close> and \<open>checkIntegrity()\<close>,
  and \<open>other\<close> is empty with null head and tail.
\<close>

theorem merge_lists:
  assumes "wf_list s l as" and "wf_list s other bs" and "set as \<inter> set bs = {}"
    and "sortedL l \<longrightarrow> sorted (elems s as)" and "sortedL other \<longrightarrow> sorted (elems s bs)"
  shows "\<exists>s' l' other'. mergeL s l other = Some (Inr (s', l', other')) \<and>
     sizeL l' = sizeL l + sizeL other \<and>
     (\<exists>ys. toVector s' l' = Some (Inr ys) \<and> length ys = sizeL l + sizeL other \<and>
           mset ys = mset (elems s as) + mset (elems s bs) \<and> sorted ys) \<and>
     isSortedCheck s' l' = Some (Inr True) \<and> checkIntegrity s' l' = Some (Inr True) \<and>
     emptyL other' \<and> headNode other' = None \<and> tailNode other' = None"
proof -
  from assms(4,5) have f: "isSorted l \<longrightarrow> sorted (elems s as)"
    "isSorted other \<longrightarrow> sorted (elems s bs)"
    by (simp_all add: sortedL_def)
  from mergeL_wf[OF assms(1,2,3) f] obtain s' l' rs where
    r: "mergeL s l other =
          Some (Inr (s', l', \<lparr>headNode = None, tailNode = None, listSize = 0, isSorted = True\<rparr>))"
       "wf_list s' l' rs" "sorted (elems s' rs)"
       "mset (elems s' rs) = mset (elems s as) + mset (elems s bs)"
    by blast
  from r(2) have fw: "fwd_list s' l' rs" by (simp add: wf_list_def)
  from r(4) have "length (elems s' rs) = length (elems s as) + length (elems s bs)"
    by (metis length_append mset_append mset_eq_length)
  then have len: "length (elems s' rs) = sizeL l + sizeL other"
    using assms(1,2) by (simp add: elems_def sizeL_def wf_list_def fwd_list_def)
  then have sz: "sizeL l' = sizeL l + sizeL other"
    using fw by (simp add: elems_def sizeL_def fwd_list_def)
  from r(1) sz len r(3,4) toVector_fwd[OF fw] isSortedCheck_fwd[OF fw] checkIntegrity_wf[OF r(2)]
  show ?thesis by (simp add: emptyL_def)
qed

theorem merge_lists_witness:
  "wf_list store_13_42 list_13 [0, 1] \<and> wf_list store_13_42 list_42 [2, 3] \<and>
   set [0, 1 :: addr] \<inter> set [2, 3] = {} \<and>
   sortedL list_13 \<and> sorted (elems store_13_42 [0, 1]) \<and> \<not> sortedL list_42 \<and>
   (\<exists>s' l' other'. mergeL store_13_42 list_13 list_42 = Some (Inr (s', l', other')) \<and>
      sizeL l' = 4 \<and>
      (\<exists>ys. toVector s' l' = Some (Inr ys) \<and> mset ys = mset [1, 3, 4, 2] \<and> sorted ys) \<and>
      isSortedCheck s' l' = Some (Inr True) \<and> emptyL other')"
proof -
  have w1: "wf_list store_13_42 list_13 [0, 1]"
    by (simp add: wf_list_def fwd_list_def store_13_42_def list_13_def)
  have w2: "wf_list store_13_42 list_42 [2, 3]"
    by (simp add: wf_list_def fwd_list_def store_13_42_def list_42_def)
  have d: "set [0, 1 :: addr] \<inter> set [2, 3] = {}" by simp
  have e: "elems store_13_42 [0, 1] = [1, 3]" "elems store_13_42 [2, 3] = [4, 2]"
    by (simp_all add: elems_def val_def store_13_42_def)
  have f1: "sortedL list_13 \<longrightarrow> sorted (elems store_13_42 [0, 1])"
    unfolding e by simp
  have f2: "sortedL list_42 \<longrightarrow> sorted (elems store_13_42 [2, 3])"
    by (simp add: sortedL_def list_42_def)
  have z: "sizeL list_13 = 2" "sizeL list_42 = 2"
    by (simp_all add: sizeL_def list_13_def list_42_def)
  have g: "sortedL list_13" "\<not> sortedL list_42"
    by (simp_all add: sortedL_def list_13_def list_42_def)
  from merge_lists [OF w1 w2 d f1 f2] w1 w2 g show ?thesis
    unfolding e z by auto
qed

end
